theory Spec2Isabelle
  imports Main "HOL-Library.AList" "HOL-Library.Sublist"
begin

section \<open>The provider plugin protocol of pkg/compose/plugins.go\<close>

text \<open>
  The development embeds \<open>runPlugin\<close>, \<open>executePlugin\<close> and \<open>checkPluginEnabledInDD\<close>.
  Everything the functions obtain from outside the file (the plugin manager, the Desktop
  integration switch, the child process and its output) is a field of the records
  \<open>child\<close> and \<open>externals\<close>, so a theorem holds for whatever these collaborators do.
\<close>

subsection \<open>Wire messages\<close>

record JsonMessage =
  Type :: string
  Message :: string

definition ErrorType :: string where "ErrorType = ''error''"
definition InfoType :: string where "InfoType = ''info''"
definition SetEnvType :: string where "SetEnvType = ''setenv''"

text \<open>
  One call of \<open>decoder.Decode(&msg)\<close> has three outcomes: \<open>io.EOF\<close>, any other error
  (its text is kept), or a decoded message.
\<close>

datatype read = EOF | Failed string | Decoded JsonMessage

subsection \<open>Errors, events and effects\<close>

text \<open>
  \<open>Errorf\<close> is an error built in this file by \<open>errors.New\<close> or \<open>fmt.Errorf\<close> and carries
  the formatted text. The next four are errors of a collaborator handed on unchanged.
  \<open>Panic\<close> is a Go run-time panic.
\<close>

datatype error =
    Errorf string
  | GetPluginErr string
  | PipeErr string
  | StartErr string
  | DecodeErr string
  | Panic string

text \<open>
  The events are kept as the constructor calls of package \<open>progress\<close> the source makes;
  the first argument is the event's id, the service name.
\<close>

datatype event =
    CreatingEvent string
  | CreatedEvent string
  | RemovingEvent string
  | RemovedEvent string
  | ErrorMessageEvent string string

text \<open>
  The effects of \<open>executePlugin\<close>, listed in program order: a \<open>cmd.Start()\<close> that
  started the process, \<open>eg.Go(cmd.Wait)\<close>, \<open>pw.Event(e)\<close>, \<open>eg.Wait()\<close> and the deferred
  \<open>stdout.Close()\<close>.
\<close>

datatype action = CmdStart | GoWait | PwEvent event | EgWait | StdoutClose

fun is_error_event :: "action \<Rightarrow> bool" where
  "is_error_event (PwEvent (ErrorMessageEvent n t)) = True"
| "is_error_event a = False"

subsection \<open>Go maps\<close>

text \<open>
  \<open>types.Mapping\<close> is \<open>map[string]string\<close>. The source ranges over it, so it is an
  association list; \<open>variables[key] = val\<close> is \<open>AList.update\<close>, which keeps keys unique.
  \<open>types.MappingWithEquals\<close> is \<open>map[string]*string\<close>: a value is a pointer, \<open>None\<close> when
  nil. A map that is itself nil is \<open>None\<close> one level up, because storing into it panics.
\<close>

type_synonym Mapping = "(string \<times> string) list"
type_synonym MappingWithEquals = "string \<rightharpoonup> string option"

subsection \<open>strings.Cut\<close>

text \<open>
  \<open>strings.Cut(s, sep)\<close> slices \<open>s\<close> around the first instance of \<open>sep\<close>; when \<open>sep\<close>
  does not occur it returns \<open>s, "", false\<close>.
\<close>

fun Cut :: "string \<Rightarrow> string \<Rightarrow> string \<times> string \<times> bool" where
  "Cut [] sep = ([], [], sep = [])"
| "Cut (c # cs) sep =
     (if prefix sep (c # cs) then ([], drop (length sep) (c # cs), True)
      else (case Cut cs sep of
              (before, after, found) \<Rightarrow>
                if found then (c # before, after, True) else (c # cs, [], False)))"

subsection \<open>The decode loop of executePlugin\<close>

text \<open>
  One pass through the body of the \<open>for\<close> loop either goes on to the next iteration
  with the variables and the effects so far, or leaves \<open>executePlugin\<close>'s loop: with an
  error by \<open>return\<close>, or with the variables by \<open>break\<close>.
\<close>

datatype flow = Next Mapping "action list" | Done "error + Mapping" "action list"

definition dispatch :: "string \<Rightarrow> JsonMessage \<Rightarrow> Mapping \<Rightarrow> action list \<Rightarrow> flow" where
  "dispatch name msg variables tr =
     (if Type msg = ErrorType then
        Done (Inl (Errorf (Message msg))) (tr @ [PwEvent (ErrorMessageEvent name ''error'')])
      else if Type msg = InfoType then
        Next variables (tr @ [PwEvent (ErrorMessageEvent name (Message msg))])
      else if Type msg = SetEnvType then
        (case Cut (Message msg) ''='' of
           (key, val, found) \<Rightarrow>
             if \<not> found then
               Done (Inl (Errorf (''invalid response from plugin: '' @ Message msg))) tr
             else Next (AList.update key val variables) tr)
      else Done (Inl (Errorf (''invalid response from plugin: '' @ Type msg))) tr)"

definition iteration :: "string \<Rightarrow> read \<Rightarrow> Mapping \<Rightarrow> action list \<Rightarrow> flow" where
  "iteration name r variables tr =
     (case r of
        EOF \<Rightarrow> Done (Inr variables) tr
      | Failed e \<Rightarrow> Done (Inl (DecodeErr e)) tr
      | Decoded msg \<Rightarrow> dispatch name msg variables tr)"

text \<open>
  The child's output is the sequence of outcomes of the successive \<open>Decode\<close> calls,
  \<open>rd 0, rd 1, ...\<close>. It need not end: a plugin that keeps writing well-formed \<open>info\<close>
  messages keeps the loop running, and then \<open>decode_loop\<close> is \<open>None\<close>.
\<close>

partial_function (option) decode_loop ::
  "(nat \<Rightarrow> read) \<Rightarrow> string \<Rightarrow> nat \<Rightarrow> Mapping \<Rightarrow> action list \<Rightarrow> ((error + Mapping) \<times> action list) option"
where
  "decode_loop rd name i variables tr =
     (case iteration name (rd i) variables tr of
        Next variables' tr' \<Rightarrow> decode_loop rd name (Suc i) variables' tr'
      | Done res tr' \<Rightarrow> Some (res, tr'))"

text \<open>
  The loop run on finitely many reads: \<open>Next\<close> when every one of them let the loop go
  on, \<open>Done\<close> as soon as one of them ended it (the reads after it are not looked at).
\<close>

fun consume :: "string \<Rightarrow> read list \<Rightarrow> Mapping \<Rightarrow> action list \<Rightarrow> flow" where
  "consume name [] variables tr = Next variables tr"
| "consume name (r # rs) variables tr =
     (case iteration name r variables tr of
        Next variables' tr' \<Rightarrow> consume name rs variables' tr'
      | Done res tr' \<Rightarrow> Done res tr')"

text \<open>The \<open>k\<close> reads from position \<open>i\<close> on.\<close>

fun reads :: "(nat \<Rightarrow> read) \<Rightarrow> nat \<Rightarrow> nat \<Rightarrow> read list" where
  "reads rd i 0 = []"
| "reads rd i (Suc k) = rd i # reads rd (Suc i) k"

text \<open>
  The reads after which the loop decodes again: an \<open>info\<close> message, or a \<open>setenv\<close>
  message whose payload has an \<open>=\<close>.
\<close>

definition continues :: "read \<Rightarrow> bool" where
  "continues r =
     (case r of
        Decoded msg \<Rightarrow>
          Type msg = InfoType \<or> (Type msg = SetEnvType \<and> CHR ''='' \<in> set (Message msg))
      | _ \<Rightarrow> False)"

subsection \<open>executePlugin\<close>

text \<open>
  What the child process does, as far as \<open>executePlugin\<close> observes it: the error of
  \<open>cmd.StdoutPipe()\<close> and of \<open>cmd.Start()\<close> (\<open>None\<close> for nil), the decoder's reads, and
  the result of \<open>cmd.Wait\<close> as \<open>eg.Wait()\<close> hands it over: \<open>None\<close> when the process never
  exits, \<open>Some None\<close> for a nil error, \<open>Some (Some d)\<close> for an error whose \<open>Error()\<close> text
  is \<open>d\<close>.
\<close>

record child =
  pipe_err :: "string option"
  start_err :: "string option"
  stdout :: "nat \<Rightarrow> read"
  wait :: "string option option"

record ServiceDependency =
  Condition :: string
  Required :: bool

record ServiceProviderConfig =
  Provider_Type :: string
  Options :: "(string \<times> string) list"

record ServiceConfig =
  Name :: string
  Provider :: "ServiceProviderConfig option"
  DependsOn :: "string \<rightharpoonup> ServiceDependency"
  Environment :: "MappingWithEquals option"

text \<open>
  The part of \<open>executePlugin\<close> from the \<open>for\<close> loop to the end, given the service
  name, the value of \<open>action\<close>, the event of the second \<open>switch command\<close> and the
  effects so far. The deferred \<open>stdout.Close()\<close> is the last effect of every return.
\<close>

definition after_start ::
  "child \<Rightarrow> string \<Rightarrow> string \<Rightarrow> event \<Rightarrow> action list \<Rightarrow> ((error + Mapping) \<times> action list) option"
where
  "after_start ch name act completed tr =
     (case decode_loop (stdout ch) name 0 [] tr of
        None \<Rightarrow> None
      | Some (Inl e, tr') \<Rightarrow> Some (Inl e, tr' @ [StdoutClose])
      | Some (Inr variables, tr') \<Rightarrow>
          (case wait ch of
             None \<Rightarrow> None
           | Some (Some d) \<Rightarrow>
               Some (Inl (Errorf (''failed to '' @ act @ '' external service: '' @ d)),
                     tr' @ [EgWait, PwEvent (ErrorMessageEvent name d), StdoutClose])
           | Some None \<Rightarrow>
               Some (Inr variables, tr' @ [EgWait, PwEvent completed, StdoutClose])))"

definition executePlugin ::
  "child \<Rightarrow> string \<Rightarrow> ServiceConfig \<Rightarrow> ((error + Mapping) \<times> action list) option"
where
  "executePlugin ch command service =
     (case pipe_err ch of
        Some e \<Rightarrow> Some (Inl (PipeErr e), [])
      | None \<Rightarrow>
          (case start_err ch of
             Some e \<Rightarrow> Some (Inl (StartErr e), [])
           | None \<Rightarrow>
               if command = ''up'' then
                 after_start ch (Name service) ''create'' (CreatedEvent (Name service))
                   [CmdStart, GoWait, PwEvent (CreatingEvent (Name service))]
               else if command = ''down'' then
                 after_start ch (Name service) ''remove'' (RemovedEvent (Name service))
                   [CmdStart, GoWait, PwEvent (RemovingEvent (Name service))]
               else
                 Some (Inl (Errorf (''unsupported plugin command: '' @ command)),
                       [CmdStart, GoWait, StdoutClose])))"

subsection \<open>checkPluginEnabledInDD and runPlugin\<close>

record Plugin =
  Plugin_Name :: string
  Plugin_Path :: string

text \<open>
  The error of \<open>docker model status\<close>: an \<open>*exec.ExitError\<close> with its exit code, or any
  other error; both with their \<open>Error()\<close> text.
\<close>

datatype cmd_error = ExitError int string | OtherError string

text \<open>
  The collaborators. \<open>ToUpper\<close> is \<open>strings.ToUpper\<close> and \<open>Quote\<close> the \<open>%q\<close> verb of
  \<open>fmt\<close>, both of Go's library. \<open>GetPlugin\<close> is \<open>manager.GetPlugin\<close> on the provider
  type, with the error's text on the left. \<open>model_status\<close> is the error of running
  \<open>docker model status\<close>. \<open>run\<close> gives the behaviour of the child started from a path
  and an argument list; the environment \<open>setupPluginCommand\<close> builds for it is part of
  that behaviour.
\<close>

record externals =
  ToUpper :: "string \<Rightarrow> string"
  Quote :: "string \<Rightarrow> string"
  GetPlugin :: "string \<Rightarrow> string + Plugin"
  isDesktopIntegrationActive :: bool
  model_status :: "cmd_error option"
  run :: "string \<Rightarrow> string list \<Rightarrow> child"

record Project =
  Project_Name :: string
  Services :: "(string \<times> ServiceConfig) list"

definition checkPluginEnabledInDD :: "externals \<Rightarrow> Plugin \<Rightarrow> error option" where
  "checkPluginEnabledInDD X plugin =
     (if \<not> isDesktopIntegrationActive X then
        Some (Errorf (''you should enable Docker Desktop integration to use ''
                      @ Quote X (Plugin_Name plugin) @ '' provider services''))
      else if Plugin_Name plugin = ''model'' then
        (case model_status X of
           Some (ExitError code d) \<Rightarrow>
             if code = 1 then
               Some (Errorf (''you should enable model runner to use ''
                             @ Quote X (Plugin_Name plugin) @ '' provider services: '' @ d))
             else None
         | _ \<Rightarrow> None)
      else Some (Errorf (''unsupported provider '' @ Quote X (Plugin_Name plugin))))"

text \<open>The argument list of \<open>setupPluginCommand\<close>.\<close>

definition plugin_args :: "Project \<Rightarrow> ServiceProviderConfig \<Rightarrow> string \<Rightarrow> string list" where
  "plugin_args project provider command =
     [''compose'', ''--project-name'', Project_Name project, command]
     @ map (\<lambda>(k, v). ''--'' @ k @ ''='' @ v) (Options provider)"

text \<open>
  The inner loop of \<open>runPlugin\<close>, \<open>s.Environment[prefix+key] = &val\<close> for each variable.
  Each iteration has its own \<open>val\<close> (Go 1.22 and later), so the pointer stored is to
  that value. Storing into a nil map panics.
\<close>

fun set_variables ::
  "string \<Rightarrow> Mapping \<Rightarrow> MappingWithEquals option \<Rightarrow> error + MappingWithEquals option"
where
  "set_variables pre [] env = Inr env"
| "set_variables pre ((key, val) # rest) env =
     (case env of
        None \<Rightarrow> Inl (Panic ''assignment to entry in nil map'')
      | Some m \<Rightarrow> set_variables pre rest (Some (m(pre @ key \<mapsto> Some val))))"

text \<open>
  The outer loop, over the entries of \<open>project.Services\<close> still to visit, with the map
  as updated so far; \<open>project.Services[name] = s\<close> is \<open>AList.update\<close>. The order of the
  entries stands for the order in which \<open>range\<close> happens to visit the map. Every service
  has an environment map of its own: no map object is shared between two services.
\<close>

fun propagate ::
  "(string \<Rightarrow> string) \<Rightarrow> ServiceConfig \<Rightarrow> Mapping \<Rightarrow> (string \<times> ServiceConfig) list \<Rightarrow>
   (string \<times> ServiceConfig) list \<Rightarrow> error option \<times> (string \<times> ServiceConfig) list"
where
  "propagate up service variables [] services = (None, services)"
| "propagate up service variables ((name, s) # rest) services =
     (if DependsOn s (Name service) \<noteq> None then
        (case set_variables (up (Name service) @ ''_'') variables (Environment s) of
           Inl e \<Rightarrow> (Some e, services)
         | Inr env \<Rightarrow>
             propagate up service variables rest
               (AList.update name (s\<lparr>Environment := env\<rparr>) services))
      else propagate up service variables rest services)"

text \<open>
  \<open>runPlugin\<close> returns its error (\<open>None\<close> for nil), the project as it left it and the
  effects of \<open>executePlugin\<close>; the whole is \<open>None\<close> when \<open>executePlugin\<close> does not return.
\<close>

definition runPlugin ::
  "externals \<Rightarrow> Project \<Rightarrow> ServiceConfig \<Rightarrow> string \<Rightarrow> (error option \<times> Project \<times> action list) option"
where
  "runPlugin X project service command =
     (case Provider service of
        None \<Rightarrow> Some (Some (Panic ''nil pointer dereference''), project, [])
      | Some provider \<Rightarrow>
          (case GetPlugin X (Provider_Type provider) of
             Inl e \<Rightarrow> Some (Some (GetPluginErr e), project, [])
           | Inr plugin \<Rightarrow>
               (case checkPluginEnabledInDD X plugin of
                  Some e \<Rightarrow> Some (Some e, project, [])
                | None \<Rightarrow>
                    (case executePlugin
                            (run X (Plugin_Path plugin) (plugin_args project provider command))
                            command service of
                       None \<Rightarrow> None
                     | Some (Inl e, tr) \<Rightarrow> Some (Some e, project, tr)
                     | Some (Inr variables, tr) \<Rightarrow>
                         (case propagate (ToUpper X) service variables
                                 (Services project) (Services project) of
                            (e, services) \<Rightarrow>
                              Some (e, project\<lparr>Services := services\<rparr>, tr))))))"

subsection \<open>Vocabulary of the theorems\<close>

text \<open>How often a run called \<open>eg.Wait()\<close>.\<close>

definition joined :: "action list \<Rightarrow> nat" where
  "joined tr = count_list tr EgWait"

text \<open>
  For the commands \<open>up\<close> and \<open>down\<close>: the value of \<open>action\<close>, the effects up to the
  loop and the event of the second \<open>switch\<close>.
\<close>

definition action_of :: "string \<Rightarrow> string" where
  "action_of command = (if command = ''up'' then ''create'' else ''remove'')"

definition start_trace :: "string \<Rightarrow> string \<Rightarrow> action list" where
  "start_trace command name =
     [CmdStart, GoWait,
      PwEvent (if command = ''up'' then CreatingEvent name else RemovingEvent name)]"

definition done_event :: "string \<Rightarrow> string \<Rightarrow> event" where
  "done_event command name = (if command = ''up'' then CreatedEvent name else RemovedEvent name)"

text \<open>
  A read that stores under \<open>key\<close>: a \<open>setenv\<close> message whose payload has \<open>key\<close> before
  its first \<open>=\<close>.
\<close>

definition sets_key :: "string \<Rightarrow> read \<Rightarrow> bool" where
  "sets_key key r =
     (case r of
        Decoded msg \<Rightarrow> Type msg = SetEnvType \<and> fst (Cut (Message msg) ''='') = key
      | _ \<Rightarrow> False)"

subsection \<open>Concrete runs\<close>

text \<open>
  A started child whose output is the given reads followed by end of stream, and the
  message \<open>{"type": ty, "message": text}\<close>.
\<close>

definition outputs :: "read list \<Rightarrow> nat \<Rightarrow> read" where
  "outputs rs i = (if i < length rs then rs ! i else EOF)"

definition message :: "string \<Rightarrow> string \<Rightarrow> read" where
  "message ty text = Decoded \<lparr>Type = ty, Message = text\<rparr>"

definition process :: "read list \<Rightarrow> string option option \<Rightarrow> child" where
  "process rs w = \<lparr>pipe_err = None, start_err = None, stdout = outputs rs, wait = w\<rparr>"

text \<open>The children of the runs below, each named after what it does.\<close>

definition chatty :: child where
  "chatty = process [message ''info'' ''pulling image'', message ''setenv'' ''TOKEN=abc''] (Some None)"

definition failing :: child where
  "failing = process [message ''info'' ''pulling image'', message ''error'' ''boom'',
                     message ''setenv'' ''HOST=127.0.0.1''] (Some None)"

definition failing' :: child where
  "failing' = process [message ''info'' ''pulling image'', message ''error'' ''boom'',
                      message ''bogus'' ''''] (Some (Some ''exit status 1''))"

definition garbled :: child where
  "garbled = process [message ''info'' ''starting'', Failed ''unexpected end of JSON input'',
                     message ''setenv'' ''HOST=127.0.0.1''] (Some None)"

definition unknown_kind :: child where
  "unknown_kind = process [message ''debug'' ''verbose''] (Some None)"

definition malformed :: child where
  "malformed = process [message ''setenv'' ''HOST'', message ''setenv'' ''PORT=5432''] (Some None)"

definition malformed' :: child where
  "malformed' = process [message ''setenv'' ''HOST'', message ''error'' ''late''] (Some (Some ''killed''))"

definition crashed :: child where
  "crashed = process [message ''setenv'' ''HOST=127.0.0.1''] (Some (Some ''exit status 1''))"

definition repeated :: child where
  "repeated = process [message ''setenv'' ''HOST=first'', message ''info'' ''retrying'',
                      message ''setenv'' ''HOST=second'', message ''setenv'' ''PORT=5432'']
                (Some None)"

text \<open>
  The project \<open>shop\<close>: the provider service \<open>db\<close>, the service \<open>web\<close> that depends on it
  and the service \<open>cache\<close> that does not and whose environment map is nil.
\<close>

definition db :: ServiceConfig where
  "db = \<lparr>Name = ''db'',
         Provider = Some \<lparr>Provider_Type = ''model'', Options = [(''size'', ''small'')]\<rparr>,
         DependsOn = Map.empty, Environment = Some Map.empty\<rparr>"

definition web :: ServiceConfig where
  "web = \<lparr>Name = ''web'', Provider = None,
          DependsOn = [''db'' \<mapsto> \<lparr>Condition = ''service_started'', Required = True\<rparr>],
          Environment = Some [''PORT'' \<mapsto> Some ''8080'']\<rparr>"

definition cache :: ServiceConfig where
  "cache = \<lparr>Name = ''cache'', Provider = None, DependsOn = Map.empty, Environment = None\<rparr>"

definition shop :: Project where
  "shop = \<lparr>Project_Name = ''shop'', Services = [(''db'', db), (''web'', web), (''cache'', cache)]\<rparr>"

text \<open>
  Collaborators for the runs: the integration is active, the only plugin is \<open>model\<close>,
  \<open>docker model status\<close> succeeds, and every command started is the given child.
  \<open>ascii_upper\<close> and \<open>quoted\<close> are \<open>strings.ToUpper\<close> and \<open>%q\<close> on the ASCII letters,
  digits and punctuation of the names used here.
\<close>

definition ascii_upper :: "string \<Rightarrow> string" where
  "ascii_upper s =
     map (\<lambda>c. case map_of (zip ''abcdefghijklmnopqrstuvwxyz'' ''ABCDEFGHIJKLMNOPQRSTUVWXYZ'') c of
               Some u \<Rightarrow> u | None \<Rightarrow> c) s"

definition quoted :: "string \<Rightarrow> string" where
  "quoted s = [CHR 0x22] @ s @ [CHR 0x22]"

definition desktop :: "child \<Rightarrow> externals" where
  "desktop ch =
     \<lparr>ToUpper = ascii_upper, Quote = quoted,
      GetPlugin = (\<lambda>t. if t = ''model''
                         then Inr \<lparr>Plugin_Name = ''model'', Plugin_Path = ''docker-model''\<rparr>
                         else Inl ''plugin not found''),
      isDesktopIntegrationActive = True, model_status = None,
      run = (\<lambda>path args. ch)\<rparr>"

section \<open>strings.Cut on a one-character separator\<close>

lemma Cut_char_found: "snd (snd (Cut s [c])) \<longleftrightarrow> c \<in> set s"
  by (induction s) (auto split: prod.splits)

lemma Cut_char_split: "Cut s [c] = (b, a, True) \<Longrightarrow> s = b @ c # a \<and> c \<notin> set b"
  by (induction s arbitrary: b a) (auto split: prod.splits if_splits)

lemma Cut_char_first: "c \<notin> set k \<Longrightarrow> Cut (k @ c # v) [c] = (k, v, True)"
  by (induction k) auto

section \<open>One pass through the loop body\<close>

lemma type_names_distinct:
  "ErrorType \<noteq> InfoType" "ErrorType \<noteq> SetEnvType" "InfoType \<noteq> SetEnvType"
  by (simp_all add: ErrorType_def InfoType_def SetEnvType_def)

lemma dispatch_info:
  "Type msg = InfoType \<Longrightarrow>
     dispatch name msg variables tr =
       Next variables (tr @ [PwEvent (ErrorMessageEvent name (Message msg))])"
  using type_names_distinct by (simp add: dispatch_def)

lemma dispatch_error:
  "Type msg = ErrorType \<Longrightarrow>
     dispatch name msg variables tr =
       Done (Inl (Errorf (Message msg))) (tr @ [PwEvent (ErrorMessageEvent name ''error'')])"
  by (simp add: dispatch_def)

lemma dispatch_setenv:
  assumes "Type msg = SetEnvType" and "Cut (Message msg) ''='' = (key, val, True)"
  shows "dispatch name msg variables tr = Next (AList.update key val variables) tr"
  using assms type_names_distinct by (simp add: dispatch_def)

lemma dispatch_setenv_invalid:
  assumes "Type msg = SetEnvType" and "CHR ''='' \<notin> set (Message msg)"
  shows "dispatch name msg variables tr =
           Done (Inl (Errorf (''invalid response from plugin: '' @ Message msg))) tr"
proof -
  obtain b a f where c: "Cut (Message msg) ''='' = (b, a, f)"
    by (cases "Cut (Message msg) ''=''") auto
  with assms(2) Cut_char_found [of "Message msg" "CHR ''=''"] have "\<not> f" by simp
  with c assms(1) type_names_distinct show ?thesis by (simp add: dispatch_def)
qed

lemma dispatch_unknown:
  assumes "Type msg \<noteq> ErrorType" "Type msg \<noteq> InfoType" "Type msg \<noteq> SetEnvType"
  shows "dispatch name msg variables tr =
           Done (Inl (Errorf (''invalid response from plugin: '' @ Type msg))) tr"
  using assms by (simp add: dispatch_def)

lemma iteration_Inr:
  "iteration name r v t = Done (Inr v') t' \<longleftrightarrow> r = EOF \<and> v' = v \<and> t' = t"
  by (cases r) (auto simp: iteration_def dispatch_def split: prod.splits)

text \<open>\<open>continues\<close> describes exactly the reads after which the body goes round again.\<close>

lemma continues_iteration:
  "continues r \<longleftrightarrow> (\<exists>v t. iteration name r variables tr = Next v t)"
proof (cases r)
  case (Decoded msg)
  obtain b a f where c: "Cut (Message msg) ''='' = (b, a, f)"
    by (cases "Cut (Message msg) ''=''") auto
  with Cut_char_found [of "Message msg" "CHR ''=''"]
  have f: "f \<longleftrightarrow> CHR ''='' \<in> set (Message msg)" by simp
  show ?thesis
    using Decoded c f type_names_distinct
    by (auto simp: continues_def iteration_def dispatch_def)
qed (simp_all add: continues_def iteration_def)

lemma iteration_trace:
  "iteration name r v tr = Next v' t \<Longrightarrow> \<exists>evs. t = tr @ map PwEvent evs"
  "iteration name r v tr = Done res t \<Longrightarrow> \<exists>evs. t = tr @ map PwEvent evs"
proof -
  have nil: "tr = tr @ map PwEvent []" by simp
  have one: "\<And>e. tr @ [PwEvent e] = tr @ map PwEvent [e]" by simp
  show "iteration name r v tr = Next v' t \<Longrightarrow> \<exists>evs. t = tr @ map PwEvent evs"
    by (cases r) (auto simp: iteration_def dispatch_def split: prod.splits if_splits intro: exI [of _ "[]"] exI [of _ "[_]"])
  show "iteration name r v tr = Done res t \<Longrightarrow> \<exists>evs. t = tr @ map PwEvent evs"
    by (cases r) (auto simp: iteration_def dispatch_def split: prod.splits if_splits intro: exI [of _ "[]"] exI [of _ "[_]"])
qed

lemma iteration_keeps_key:
  assumes "iteration name r v t = Next v' t'" and "\<not> sets_key key r"
  shows "map_of v' key = map_of v key"
proof (cases r)
  case (Decoded msg)
  show ?thesis
  proof (cases "Type msg = SetEnvType")
    case True
    obtain k val f where c: "Cut (Message msg) ''='' = (k, val, f)"
      by (cases "Cut (Message msg) ''=''") auto
    with assms Decoded True type_names_distinct have "v' = AList.update k val v" "k \<noteq> key"
      by (auto simp: iteration_def dispatch_def sets_key_def split: if_splits)
    then show ?thesis by (simp add: update_conv')
  next
    case False
    with assms Decoded show ?thesis
      by (auto simp: iteration_def dispatch_def split: if_splits)
  qed
qed (use assms in \<open>simp_all add: iteration_def\<close>)

lemma iteration_distinct:
  assumes "iteration name r v t = Next v' t'" and "distinct (map fst v)"
  shows "distinct (map fst v')"
proof (cases r)
  case (Decoded msg)
  with assms show ?thesis
    by (auto simp: iteration_def dispatch_def distinct_update split: if_splits prod.splits)
qed (use assms in \<open>simp_all add: iteration_def\<close>)

section \<open>The loop on finitely many reads\<close>

lemma reads_length [simp]: "length (reads rd i k) = k"
  by (induction k arbitrary: i) auto

lemma reads_Suc_end: "reads rd i (Suc k) = reads rd i k @ [rd (i + k)]"
  by (induction k arbitrary: i) auto

lemma reads_add: "reads rd i (n + m) = reads rd i n @ reads rd (i + n) m"
  by (induction n arbitrary: i) auto

lemma reads_cong: "(\<And>j. j < k \<Longrightarrow> rd' (i + j) = rd (i + j)) \<Longrightarrow> reads rd' i k = reads rd i k"
proof (induction k arbitrary: i)
  case 0
  show ?case by simp
next
  case (Suc k)
  have "rd' i = rd i" using Suc.prems [of 0] by simp
  moreover have "reads rd' (Suc i) k = reads rd (Suc i) k"
    using Suc.prems [of "Suc _"] by (intro Suc.IH) simp
  ultimately show ?case by simp
qed

lemma reads_set: "set (reads rd i k) = rd ` {i..<i + k}"
proof (induction k arbitrary: i)
  case 0
  show ?case by simp
next
  case (Suc k)
  have "{i..<i + Suc k} = insert i {Suc i..<Suc i + k}" by auto
  with Suc [of "Suc i"] show ?case by simp
qed

lemma reads_split:
  assumes "j < n"
  shows "reads rd 0 n = reads rd 0 j @ rd j # reads rd (Suc j) (n - Suc j)"
proof -
  from assms have "n = j + Suc (n - Suc j)" by simp
  then have "reads rd 0 n = reads rd 0 (j + Suc (n - Suc j))" by simp
  also have "\<dots> = reads rd 0 j @ reads rd (0 + j) (Suc (n - Suc j))" by (rule reads_add)
  finally show ?thesis by simp
qed

lemma consume_append:
  "consume name (xs @ ys) variables tr =
     (case consume name xs variables tr of
        Next v t \<Rightarrow> consume name ys v t
      | Done res t \<Rightarrow> Done res t)"
  by (induction xs arbitrary: variables tr) (auto split: flow.split)

lemma consume_continues:
  "list_all continues rs \<Longrightarrow> \<exists>v t. consume name rs variables tr = Next v t"
proof (induction rs arbitrary: variables tr)
  case Nil
  show ?case by simp
next
  case (Cons r rs)
  from Cons.prems have "continues r" and rest: "list_all continues rs" by simp_all
  then obtain v t where "iteration name r variables tr = Next v t"
    using continues_iteration by blast
  with Cons.IH [OF rest, of v t] show ?case by simp
qed

lemma consume_Next_continues:
  "consume name rs variables tr = Next v t \<Longrightarrow> list_all continues rs"
proof (induction rs arbitrary: variables tr)
  case Nil
  show ?case by simp
next
  case (Cons r rs)
  then show ?case
    by (cases "iteration name r variables tr") (auto simp: continues_iteration [of r name variables tr])
qed

lemma consume_trace:
  "consume name rs v tr = Next v' t \<Longrightarrow> \<exists>evs. t = tr @ map PwEvent evs"
proof (induction rs arbitrary: v tr)
  case Nil
  then show ?case by (auto intro: exI [of _ "[]"])
next
  case (Cons r rs)
  from Cons.prems obtain v1 t1 where it: "iteration name r v tr = Next v1 t1"
    and rest: "consume name rs v1 t1 = Next v' t"
    by (cases "iteration name r v tr") auto
  from iteration_trace(1) [OF it] obtain e1 where "t1 = tr @ map PwEvent e1" ..
  moreover from Cons.IH [OF rest] obtain e2 where "t = t1 @ map PwEvent e2" ..
  ultimately have "t = tr @ map PwEvent (e1 @ e2)" by simp
  then show ?case ..
qed

lemma consume_keeps_key:
  "consume name rs v t = Next v' t' \<Longrightarrow> \<forall>r\<in>set rs. \<not> sets_key key r \<Longrightarrow>
     map_of v' key = map_of v key"
proof (induction rs arbitrary: v t)
  case Nil
  then show ?case by simp
next
  case (Cons r rs)
  from Cons.prems(1) obtain v1 t1 where it: "iteration name r v t = Next v1 t1"
    and rest: "consume name rs v1 t1 = Next v' t'"
    by (cases "iteration name r v t") auto
  from Cons.prems(2) have "\<not> sets_key key r" "\<forall>r\<in>set rs. \<not> sets_key key r" by simp_all
  with Cons.IH [OF rest] iteration_keeps_key [OF it] show ?case by simp
qed

lemma consume_distinct:
  "consume name rs v t = Next v' t' \<Longrightarrow> distinct (map fst v) \<Longrightarrow> distinct (map fst v')"
proof (induction rs arbitrary: v t)
  case Nil
  then show ?case by simp
next
  case (Cons r rs)
  from Cons.prems(1) obtain v1 t1 where it: "iteration name r v t = Next v1 t1"
    and rest: "consume name rs v1 t1 = Next v' t'"
    by (cases "iteration name r v t") auto
  from iteration_distinct [OF it Cons.prems(2)] Cons.IH [OF rest] show ?case by simp
qed

lemma consume_Done_at:
  "consume name (reads rd i k) variables tr = Done res t' \<Longrightarrow>
     \<exists>n v t. n < k \<and> consume name (reads rd i n) variables tr = Next v t \<and>
             iteration name (rd (i + n)) v t = Done res t'"
proof (induction k)
  case 0
  then show ?case by simp
next
  case (Suc k)
  show ?case
  proof (cases "consume name (reads rd i k) variables tr")
    case (Next v t)
    with Suc.prems have "iteration name (rd (i + k)) v t = Done res t'"
      by (simp add: reads_Suc_end consume_append del: reads.simps split: flow.splits)
    with Next show ?thesis by blast
  next
    case (Done r u)
    with Suc.prems have "r = res" "u = t'"
      by (simp_all add: reads_Suc_end consume_append del: reads.simps)
    with Done Suc.IH obtain n v t where "n < k"
      "consume name (reads rd i n) variables tr = Next v t"
      "iteration name (rd (i + n)) v t = Done res t'" by blast
    then show ?thesis using less_Suc_eq by blast
  qed
qed

section \<open>The loop on the whole output\<close>

text \<open>
  On the first \<open>k\<close> reads the loop does what \<open>consume\<close> does, and whatever it returns
  it returns after finitely many reads.
\<close>

lemma decode_loop_unroll:
  "decode_loop rd name i variables tr =
     (case consume name (reads rd i k) variables tr of
        Next v t \<Rightarrow> decode_loop rd name (i + k) v t
      | Done res t \<Rightarrow> Some (res, t))"
proof (induction k arbitrary: i variables tr)
  case 0
  show ?case by simp
next
  case (Suc k)
  show ?case
  proof (cases "iteration name (rd i) variables tr")
    case (Next v t)
    then show ?thesis
      using Suc.IH [of "Suc i" v t] by (subst decode_loop.simps) (simp split: flow.split)
  next
    case (Done res t)
    then show ?thesis
      by (subst decode_loop.simps) simp
  qed
qed

lemma decode_loop_returns:
  assumes ret: "decode_loop rd name i variables tr = Some y"
  shows "\<exists>k. consume name (reads rd i k) variables tr = Done (fst y) (snd y)"
proof (rule decode_loop.raw_induct
    [where P = "\<lambda>rd name i variables tr y.
                  \<exists>k. consume name (reads rd i k) variables tr = Done (fst y) (snd y)",
     OF _ ret])
  fix f and rd :: "nat \<Rightarrow> read" and name i variables tr and y :: "(error + Mapping) \<times> action list"
  assume IH: "\<And>rd name i variables tr y. f rd name i variables tr = Some y \<Longrightarrow>
     \<exists>k. consume name (reads rd i k) variables tr = Done (fst y) (snd y)"
  assume body: "(case iteration name (rd i) variables tr of
        Next variables' tr' \<Rightarrow> f rd name (Suc i) variables' tr'
      | Done res tr' \<Rightarrow> Some (res, tr')) = Some y"
  show "\<exists>k. consume name (reads rd i k) variables tr = Done (fst y) (snd y)"
  proof (cases "iteration name (rd i) variables tr")
    case (Next v t)
    with body have "f rd name (Suc i) v t = Some y" by simp
    then obtain k where "consume name (reads rd (Suc i) k) v t = Done (fst y) (snd y)"
      using IH by blast
    with Next have "consume name (reads rd i (Suc k)) variables tr = Done (fst y) (snd y)"
      by simp
    then show ?thesis ..
  next
    case (Done res t)
    with body have "y = (res, t)" by simp
    with Done have "consume name (reads rd i (Suc 0)) variables tr = Done (fst y) (snd y)"
      by simp
    then show ?thesis ..
  qed
qed

lemma loop_ends:
  assumes "consume name (reads rd i n) variables tr = Next v t"
    and "iteration name (rd (i + n)) v t = Done res t'"
  shows "decode_loop rd name i variables tr = Some (res, t')"
  using assms decode_loop_unroll [of rd name i variables tr "Suc n"]
  by (simp add: reads_Suc_end consume_append del: reads.simps)

lemma loop_returns_at:
  assumes "decode_loop rd name i variables tr = Some (res, t')"
  shows "\<exists>n v t. consume name (reads rd i n) variables tr = Next v t \<and>
           iteration name (rd (i + n)) v t = Done res t'"
  using decode_loop_returns [OF assms] consume_Done_at by fastforce

text \<open>
  The loop returns once a read does not continue it, and never when every read does.
\<close>

lemma decode_loop_stops:
  assumes "\<not> continues (rd (i + n))"
  shows "\<exists>y. decode_loop rd name i v t = Some y"
proof (cases "consume name (reads rd i (Suc n)) v t")
  case (Next v' t')
  from consume_Next_continues [OF this] have "continues (rd (i + n))"
    by (simp add: reads_Suc_end del: reads.simps)
  with assms show ?thesis by simp
next
  case (Done res t')
  with decode_loop_unroll [of rd name i v t "Suc n"] show ?thesis by simp
qed

lemma decode_loop_runs_on:
  assumes "\<forall>n. continues (rd n)"
  shows "decode_loop rd name i v t = None"
proof (rule ccontr)
  assume "decode_loop rd name i v t \<noteq> None"
  then obtain res t' where "decode_loop rd name i v t = Some (res, t')" by auto
  from loop_returns_at [OF this] obtain n v0 t0
    where "iteration name (rd (i + n)) v0 t0 = Done res t'" by blast
  with continues_iteration [of "rd (i + n)" name v0 t0] assms show False by simp
qed

section \<open>Facts about executePlugin\<close>

text \<open>
  For \<open>up\<close> and \<open>down\<close> on a started child, \<open>executePlugin\<close> is the loop and what
  follows it. It returns when the output has a read that ends the loop and the process
  exits; it does not return while the child keeps writing \<open>info\<close> and well-formed
  \<open>setenv\<close> messages.
\<close>

lemma executePlugin_started:
  assumes "pipe_err ch = None" "start_err ch = None" "command = ''up'' \<or> command = ''down''"
  shows "executePlugin ch command service =
           after_start ch (Name service) (action_of command)
             (done_event command (Name service)) (start_trace command (Name service))"
  using assms by (auto simp: executePlugin_def action_of_def done_event_def start_trace_def)

lemma after_start_error:
  assumes "consume name (reads (stdout ch) 0 n) [] tr = Next v t"
    and "iteration name (stdout ch n) v t = Done (Inl e) t'"
  shows "after_start ch name act ev tr = Some (Inl e, t' @ [StdoutClose])"
  using loop_ends [of name "stdout ch" 0 n "[]" tr v t "Inl e" t'] assms
  by (simp add: after_start_def)

lemma after_start_eof:
  assumes "consume name (reads (stdout ch) 0 n) [] tr = Next v t"
    and "stdout ch n = EOF"
  shows "after_start ch name act ev tr =
     (case wait ch of
        None \<Rightarrow> None
      | Some (Some d) \<Rightarrow>
          Some (Inl (Errorf (''failed to '' @ act @ '' external service: '' @ d)),
                t @ [EgWait, PwEvent (ErrorMessageEvent name d), StdoutClose])
      | Some None \<Rightarrow> Some (Inr v, t @ [EgWait, PwEvent ev, StdoutClose]))"
proof -
  have "iteration name (stdout ch n) v t = Done (Inr v) t"
    using assms(2) by (simp add: iteration_def)
  with loop_ends [of name "stdout ch" 0 n "[]" tr v t "Inr v" t] assms(1)
  have "decode_loop (stdout ch) name 0 [] tr = Some (Inr v, t)" by simp
  then show ?thesis by (simp add: after_start_def)
qed

lemma after_start_Inr:
  assumes "after_start ch name act ev tr = Some (Inr V, tr')"
  shows "\<exists>n t. consume name (reads (stdout ch) 0 n) [] tr = Next V t \<and> stdout ch n = EOF \<and>
            wait ch = Some None \<and> tr' = t @ [EgWait, PwEvent ev, StdoutClose]"
proof -
  from assms obtain res t where loop: "decode_loop (stdout ch) name 0 [] tr = Some (res, t)"
    by (auto simp: after_start_def split: option.splits)
  with assms obtain v where res: "res = Inr v"
    by (cases res) (auto simp: after_start_def)
  from assms loop res have w: "wait ch = Some None" and V: "V = v"
    and tr': "tr' = t @ [EgWait, PwEvent ev, StdoutClose]"
    by (auto simp: after_start_def split: option.splits)
  from loop_returns_at [OF loop] res obtain n v0 t0
    where c: "consume name (reads (stdout ch) 0 n) [] tr = Next v0 t0"
      and it: "iteration name (stdout ch (0 + n)) v0 t0 = Done (Inr v) t" by blast
  from it have "stdout ch n = EOF" "v = v0" "t = t0" by (simp_all add: iteration_Inr)
  with c w V tr' show ?thesis by blast
qed

lemma executePlugin_returns:
  assumes "pipe_err ch = None" and "start_err ch = None"
    and "command = ''up'' \<or> command = ''down''"
    and "\<not> continues (stdout ch n)" and "wait ch = Some w"
  shows "\<exists>y. executePlugin ch command service = Some y"
proof -
  from decode_loop_stops [of "stdout ch" 0 n] assms(4)
  obtain res t where "decode_loop (stdout ch) (Name service) 0 []
      (start_trace command (Name service)) = Some (res, t)" by fastforce
  with assms(5) executePlugin_started [OF assms(1-3), of service] show ?thesis
    by (cases res; cases w) (simp_all add: after_start_def)
qed

lemma executePlugin_waits_for_output:
  assumes "pipe_err ch = None" and "start_err ch = None"
    and "command = ''up'' \<or> command = ''down''"
    and "\<forall>n. continues (stdout ch n)"
  shows "executePlugin ch command service = None"
  using executePlugin_started [OF assms(1-3), of service] decode_loop_runs_on [OF assms(4)]
  by (simp add: after_start_def)

lemma joined_events [simp]: "joined (tr @ map PwEvent evs) = joined tr"
  by (induction evs rule: rev_induct) (simp_all add: joined_def)

lemma joined_start_trace: "joined (start_trace command name) = 0"
  by (simp add: joined_def start_trace_def)

lemma executePlugin_Inr:
  assumes "executePlugin ch command service = Some (Inr V, tr)"
  shows "pipe_err ch = None \<and> start_err ch = None \<and>
         (\<exists>n. list_all continues (reads (stdout ch) 0 n) \<and> stdout ch n = EOF) \<and>
         wait ch = Some None \<and>
         (\<exists>t. tr = t @ [EgWait, PwEvent (done_event command (Name service)), StdoutClose])"
proof -
  from assms have st: "pipe_err ch = None" "start_err ch = None"
    and cmd: "command = ''up'' \<or> command = ''down''"
    by (auto simp: executePlugin_def split: option.splits if_splits)
  from assms executePlugin_started [OF st cmd, of service]
  have "after_start ch (Name service) (action_of command) (done_event command (Name service))
          (start_trace command (Name service)) = Some (Inr V, tr)" by simp
  from after_start_Inr [OF this] obtain n t
    where c: "consume (Name service) (reads (stdout ch) 0 n) [] (start_trace command (Name service))
                = Next V t"
      and rest: "stdout ch n = EOF" "wait ch = Some None"
        "tr = t @ [EgWait, PwEvent (done_event command (Name service)), StdoutClose]"
    by blast
  from consume_Next_continues [OF c] rest st show ?thesis by blast
qed

lemma executePlugin_distinct:
  assumes "executePlugin ch command service = Some (Inr V, tr)"
  shows "distinct (map fst V)"
proof -
  from assms have st: "pipe_err ch = None" "start_err ch = None"
    and cmd: "command = ''up'' \<or> command = ''down''"
    by (auto simp: executePlugin_def split: option.splits if_splits)
  from assms executePlugin_started [OF st cmd, of service]
  have "after_start ch (Name service) (action_of command) (done_event command (Name service))
          (start_trace command (Name service)) = Some (Inr V, tr)" by simp
  from after_start_Inr [OF this] obtain n t
    where "consume (Name service) (reads (stdout ch) 0 n) [] (start_trace command (Name service))
             = Next V t" by blast
  from consume_distinct [OF this] show ?thesis by simp
qed

text \<open>
  The early returns of the loop: the error and the events of the read that ended the
  loop, then the deferred close; the reads after it and the exit of the process are
  never looked at.
\<close>

lemma fails_at:
  assumes st: "pipe_err ch = None" "start_err ch = None"
    and cmd: "command = ''up'' \<or> command = ''down''"
    and cont: "list_all continues (reads (stdout ch) 0 n)"
    and it: "\<And>v t. iteration (Name service) (stdout ch n) v t = Done (Inl e) (t @ evs)"
  shows "\<exists>t. executePlugin ch command service = Some (Inl e, t @ evs @ [StdoutClose])"
    and "\<forall>ch'. pipe_err ch' = None \<and> start_err ch' = None \<and> (\<forall>i\<le>n. stdout ch' i = stdout ch i)
            \<longrightarrow> executePlugin ch' command service = executePlugin ch command service"
proof -
  let ?name = "Name service"
  let ?tr = "start_trace command ?name"
  from consume_continues [OF cont] obtain v t
    where c: "consume ?name (reads (stdout ch) 0 n) [] ?tr = Next v t" by blast
  have r: "after_start ch ?name (action_of command) (done_event command ?name) ?tr =
      Some (Inl e, (t @ evs) @ [StdoutClose])"
    by (rule after_start_error [OF c it])
  with executePlugin_started [OF st cmd, of service]
  have res: "executePlugin ch command service = Some (Inl e, t @ evs @ [StdoutClose])" by simp
  then show "\<exists>t. executePlugin ch command service = Some (Inl e, t @ evs @ [StdoutClose])" ..
  show "\<forall>ch'. pipe_err ch' = None \<and> start_err ch' = None \<and> (\<forall>i\<le>n. stdout ch' i = stdout ch i)
            \<longrightarrow> executePlugin ch' command service = executePlugin ch command service"
  proof (intro allI impI, elim conjE)
    fix ch' :: child
    assume st': "pipe_err ch' = None" "start_err ch' = None"
      and same: "\<forall>i\<le>n. stdout ch' i = stdout ch i"
    have "reads (stdout ch') 0 n = reads (stdout ch) 0 n"
      using same by (intro reads_cong) simp
    with c have c': "consume ?name (reads (stdout ch') 0 n) [] ?tr = Next v t" by simp
    from same it have it': "iteration ?name (stdout ch' n) v t = Done (Inl e) (t @ evs)" by simp
    have "after_start ch' ?name (action_of command) (done_event command ?name) ?tr =
      Some (Inl e, (t @ evs) @ [StdoutClose])"
      by (rule after_start_error [OF c' it'])
    with executePlugin_started [OF st' cmd, of service] res
    show "executePlugin ch' command service = executePlugin ch command service" by simp
  qed
qed

section \<open>Facts about runPlugin\<close>

lemma runPlugin_hands_on_error:
  assumes "Provider service = Some provider"
    and "GetPlugin X (Provider_Type provider) = Inr plugin"
    and "checkPluginEnabledInDD X plugin = None"
    and "executePlugin (run X (Plugin_Path plugin) (plugin_args project provider command))
           command service = Some (Inl e, tr)"
  shows "runPlugin X project service command = Some (Some e, project, tr)"
  using assms by (simp add: runPlugin_def)

lemma runPlugin_changed:
  assumes "runPlugin X project service command = Some (res, project', tr)"
    and "project' \<noteq> project"
  shows "\<exists>provider plugin V.
           Provider service = Some provider \<and> GetPlugin X (Provider_Type provider) = Inr plugin \<and>
           executePlugin (run X (Plugin_Path plugin) (plugin_args project provider command))
             command service = Some (Inr V, tr)"
  using assms
  by (auto simp: runPlugin_def split: option.splits sum.splits prod.splits)

text \<open>
  What \<open>set_variables\<close> and \<open>propagate\<close> store, for variables with distinct keys and
  services with distinct names.
\<close>

lemma set_variables_nil_map:
  "set_variables pre vs None = Inr env' \<Longrightarrow> vs = [] \<and> env' = None"
  by (cases vs) auto

lemma set_variables_stores:
  assumes "set_variables pre vs (Some m) = Inr env'"
  shows "\<exists>m'. env' = Some m' \<and>
           (distinct (map fst vs) \<longrightarrow>
              (\<forall>k v. (k, v) \<in> set vs \<longrightarrow> m' (pre @ k) = Some (Some v))) \<and>
           (\<forall>x. (\<forall>k\<in>fst ` set vs. x \<noteq> pre @ k) \<longrightarrow> m' x = m x)"
  using assms
proof (induction vs arbitrary: m)
  case Nil
  then show ?case by auto
next
  case (Cons kv vs)
  obtain k0 v0 where kv: "kv = (k0, v0)" by (cases kv)
  let ?m1 = "m(pre @ k0 \<mapsto> Some v0)"
  from Cons.prems kv have "set_variables pre vs (Some ?m1) = Inr env'" by simp
  from Cons.IH [OF this] obtain m' where m': "env' = Some m'"
    and sto: "distinct (map fst vs) \<longrightarrow> (\<forall>k v. (k, v) \<in> set vs \<longrightarrow> m' (pre @ k) = Some (Some v))"
    and frame: "\<forall>x. (\<forall>k\<in>fst ` set vs. x \<noteq> pre @ k) \<longrightarrow> m' x = ?m1 x"
    by blast
  have "m' (pre @ k) = Some (Some v)"
    if d: "distinct (map fst (kv # vs))" and mem: "(k, v) \<in> set (kv # vs)" for k v
  proof (cases "(k, v) \<in> set vs")
    case True
    with d sto show ?thesis by simp
  next
    case False
    with mem kv have eq: "k = k0" "v = v0" by simp_all
    from d kv have "k0 \<notin> fst ` set vs" by simp
    then have "\<forall>k\<in>fst ` set vs. pre @ k0 \<noteq> pre @ k" by auto
    with frame have "m' (pre @ k0) = ?m1 (pre @ k0)" by blast
    with eq show ?thesis by simp
  qed
  moreover have "m' x = m x" if "\<forall>k\<in>fst ` set (kv # vs). x \<noteq> pre @ k" for x
  proof -
    from that kv have "x \<noteq> pre @ k0" "\<forall>k\<in>fst ` set vs. x \<noteq> pre @ k" by simp_all
    with frame show ?thesis by simp
  qed
  ultimately show ?case using m' by blast
qed

lemma propagate_map_of:
  assumes "propagate up service vars todo services = (None, services')"
    and "distinct (map fst todo)"
  shows "map_of services' name =
     (case map_of todo name of
        None \<Rightarrow> map_of services name
      | Some s \<Rightarrow>
          if DependsOn s (Name service) \<noteq> None then
            (case set_variables (up (Name service) @ ''_'') vars (Environment s) of
               Inl e \<Rightarrow> None
             | Inr env \<Rightarrow> Some (s\<lparr>Environment := env\<rparr>))
          else map_of services name)"
  using assms
proof (induction todo arbitrary: services)
  case Nil
  then show ?case by simp
next
  case (Cons a todo)
  obtain n0 s0 where a: "a = (n0, s0)" by (cases a)
  from Cons.prems(2) a have fresh: "map_of todo n0 = None" and d: "distinct (map fst todo)"
    by (simp_all add: map_of_eq_None_iff)
  show ?case
  proof (cases "DependsOn s0 (Name service) \<noteq> None")
    case False
    with Cons.prems(1) a have "propagate up service vars todo services = (None, services')"
      by simp
    from Cons.IH [OF this d] False a fresh show ?thesis
      by (cases "name = n0") simp_all
  next
    case True
    show ?thesis
    proof (cases "set_variables (up (Name service) @ ''_'') vars (Environment s0)")
      case (Inl e)
      with Cons.prems(1) a True show ?thesis by simp
    next
      case (Inr env)
      with Cons.prems(1) a True
      have "propagate up service vars todo (AList.update n0 (s0\<lparr>Environment := env\<rparr>) services)
              = (None, services')" by simp
      from Cons.IH [OF this d] True a fresh Inr show ?thesis
        by (cases "name = n0") (simp_all add: update_conv' split: option.split)
    qed
  qed
qed

lemma propagate_keys:
  "propagate up service vars todo services = (res, services') \<Longrightarrow>
     fst ` set todo \<subseteq> fst ` set services \<Longrightarrow> map fst services' = map fst services"
proof (induction todo arbitrary: services)
  case Nil
  then show ?case by simp
next
  case (Cons a todo)
  obtain n0 s0 where a: "a = (n0, s0)" by (cases a)
  from Cons.prems(2) a have n0: "n0 \<in> fst ` set services" and sub: "fst ` set todo \<subseteq> fst ` set services"
    by simp_all
  have keys: "map fst (AList.update n0 s services) = map fst services" for s
    using n0 by (simp add: update_keys)
  show ?case
  proof (cases "DependsOn s0 (Name service) \<noteq> None")
    case False
    with Cons a sub show ?thesis by simp
  next
    case True
    show ?thesis
    proof (cases "set_variables (up (Name service) @ ''_'') vars (Environment s0)")
      case (Inl e)
      with Cons.prems(1) a True show ?thesis by simp
    next
      case (Inr env)
      with Cons.prems(1) a True
      have p: "propagate up service vars todo (AList.update n0 (s0\<lparr>Environment := env\<rparr>) services)
              = (res, services')" by simp
      have "fst ` set todo \<subseteq> fst ` set (AList.update n0 (s0\<lparr>Environment := env\<rparr>) services)"
        using sub keys [of "s0\<lparr>Environment := env\<rparr>"] by (metis set_map)
      from Cons.IH [OF p this] keys show ?thesis by simp
    qed
  qed
qed

section \<open>The concrete runs evaluated\<close>

text \<open>On a child built by \<open>process\<close> the loop is \<open>consume\<close> on its list of reads.\<close>

lemma reads_outputs: "reads (outputs (xs @ rs)) (length xs) (length rs) = rs"
proof (induction rs arbitrary: xs)
  case Nil
  show ?case by simp
next
  case (Cons r rs)
  have "outputs (xs @ r # rs) (length xs) = r" by (simp add: outputs_def)
  moreover have "reads (outputs ((xs @ [r]) @ rs)) (length (xs @ [r])) (length rs) = rs"
    by (rule Cons.IH)
  ultimately show ?case by simp
qed

lemma decode_loop_outputs:
  "decode_loop (outputs rs) name 0 v t =
     (case consume name rs v t of
        Next v' t' \<Rightarrow> Some (Inr v', t')
      | Done res t' \<Rightarrow> Some (res, t'))"
proof -
  have r: "reads (outputs rs) 0 (length rs) = rs"
    using reads_outputs [of "[]" rs] by simp
  have e: "decode_loop (outputs rs) name (length rs) v' t' = Some (Inr v', t')" for v' t'
    by (subst decode_loop.simps) (simp add: outputs_def iteration_def)
  show ?thesis
    using decode_loop_unroll [of "outputs rs" name 0 v t "length rs"]
    by (simp add: r e split: flow.split)
qed

lemmas run_defs =
  executePlugin_def after_start_def decode_loop_outputs process_def iteration_def dispatch_def
  message_def ErrorType_def InfoType_def SetEnvType_def db_def

lemma Name_db: "Name db = ''db''"
  by (simp add: db_def)

lemma Provider_db:
  "Provider db = Some \<lparr>Provider_Type = ''model'', Options = [(''size'', ''small'')]\<rparr>"
  by (simp add: db_def)

lemma DependsOn_db: "DependsOn db = Map.empty"
  by (simp add: db_def)

lemma Environment_db: "Environment db = Some Map.empty"
  by (simp add: db_def)

lemma chatty_run:
  "executePlugin chatty ''up'' db =
     Some (Inr [(''TOKEN'', ''abc'')],
           [CmdStart, GoWait, PwEvent (CreatingEvent ''db''),
            PwEvent (ErrorMessageEvent ''db'' ''pulling image''),
            EgWait, PwEvent (CreatedEvent ''db''), StdoutClose])"
  by (simp add: chatty_def run_defs)

lemma failing_run:
  "executePlugin failing ''up'' db =
     Some (Inl (Errorf ''boom''),
           [CmdStart, GoWait, PwEvent (CreatingEvent ''db''),
            PwEvent (ErrorMessageEvent ''db'' ''pulling image''),
            PwEvent (ErrorMessageEvent ''db'' ''error''), StdoutClose])"
  by (simp add: failing_def run_defs)

lemma malformed_run:
  "executePlugin malformed ''up'' db =
     Some (Inl (Errorf ''invalid response from plugin: HOST''),
           [CmdStart, GoWait, PwEvent (CreatingEvent ''db''), StdoutClose])"
  by (simp add: malformed_def run_defs)

lemma web_gains:
  "[''PORT'' \<mapsto> Some ''8080'', ''DB_TOKEN'' \<mapsto> Some ''abc''] \<noteq> [''PORT'' \<mapsto> Some ''8080'']"
proof
  assume "[''PORT'' \<mapsto> Some ''8080'', ''DB_TOKEN'' \<mapsto> Some ''abc''] = [''PORT'' \<mapsto> Some ''8080'']"
  then have "[''PORT'' \<mapsto> Some ''8080'', ''DB_TOKEN'' \<mapsto> Some ''abc''] ''DB_TOKEN'' =
      [''PORT'' \<mapsto> Some ''8080''] ''DB_TOKEN''"
    by (rule fun_cong)
  then show False by simp
qed

lemmas shop_defs =
  runPlugin_def checkPluginEnabledInDD_def desktop_def shop_def web_def cache_def
  Name_db Provider_db DependsOn_db Environment_db ascii_upper_def

section \<open>The claims\<close>

text \<open>
  Claim C1. Let \<open>runPlugin\<close> return nil on a project whose services have distinct
  names (they are the keys of a Go map), and let \<open>V\<close> be the variables \<open>executePlugin\<close>
  returned. The project afterwards has the same services under the same names. A service
  that has the invoking service among its \<open>DependsOn\<close> keeps all its fields but the
  environment, which maps \<open>ToUpper(service.Name) + "_" + key\<close> to a pointer to \<open>val\<close>
  for each entry of \<open>V\<close> and is unchanged at every other key. A service that does not
  depend on the invoking service is unchanged.
\<close>

theorem variables_reach_dependents:
  assumes "runPlugin X project service command = Some (None, project', tr)"
    and "distinct (map fst (Services project))"
  shows "\<exists>V. (\<exists>provider plugin.
              Provider service = Some provider \<and>
              GetPlugin X (Provider_Type provider) = Inr plugin \<and>
              executePlugin (run X (Plugin_Path plugin) (plugin_args project provider command))
                command service = Some (Inr V, tr)) \<and>
           map fst (Services project') = map fst (Services project) \<and>
           (\<forall>name s. map_of (Services project) name = Some s \<longrightarrow>
              (\<exists>s'. map_of (Services project') name = Some s' \<and>
                 (if DependsOn s (Name service) \<noteq> None then
                    s' = s\<lparr>Environment := Environment s'\<rparr> \<and>
                    (\<forall>key val. (key, val) \<in> set V \<longrightarrow>
                       (\<exists>env. Environment s' = Some env \<and>
                          env (ToUpper X (Name service) @ ''_'' @ key) = Some (Some val))) \<and>
                    (\<forall>old new x.
                       Environment s = Some old \<and> Environment s' = Some new \<and>
                       (\<forall>key\<in>fst ` set V. x \<noteq> ToUpper X (Name service) @ ''_'' @ key) \<longrightarrow>
                       new x = old x)
                  else s' = s)))"
proof -
  let ?pre = "ToUpper X (Name service) @ ''_''"
  from assms(1) obtain provider plugin V services'
    where prov: "Provider service = Some provider"
      and plug: "GetPlugin X (Provider_Type provider) = Inr plugin"
      and exec: "executePlugin (run X (Plugin_Path plugin) (plugin_args project provider command))
                   command service = Some (Inr V, tr)"
      and pg: "propagate (ToUpper X) service V (Services project) (Services project)
                   = (None, services')"
      and p': "project' = project\<lparr>Services := services'\<rparr>"
    by (auto simp: runPlugin_def split: option.splits sum.splits prod.splits)
  from executePlugin_distinct [OF exec] have dV: "distinct (map fst V)" .
  from propagate_keys [OF pg] p'
  have keys: "map fst (Services project') = map fst (Services project)" by simp
  have each: "\<exists>s'. map_of (Services project') name = Some s' \<and>
       (if DependsOn s (Name service) \<noteq> None then
          s' = s\<lparr>Environment := Environment s'\<rparr> \<and>
          (\<forall>key val. (key, val) \<in> set V \<longrightarrow>
             (\<exists>env. Environment s' = Some env \<and> env (ToUpper X (Name service) @ ''_'' @ key) = Some (Some val))) \<and>
          (\<forall>old new x.
             Environment s = Some old \<and> Environment s' = Some new \<and>
             (\<forall>key\<in>fst ` set V. x \<noteq> ToUpper X (Name service) @ ''_'' @ key) \<longrightarrow> new x = old x)
        else s' = s)"
    if s: "map_of (Services project) name = Some s" for name s
  proof (cases "DependsOn s (Name service) \<noteq> None")
    case False
    with propagate_map_of [OF pg assms(2), of name] s p' show ?thesis by simp
  next
    case True
    note m = propagate_map_of [OF pg assms(2), of name]
    show ?thesis
    proof (cases "set_variables ?pre V (Environment s)")
      case (Inl e)
      with m s True p' have "map_of services' name = None" by simp
      moreover from keys p' s have "name \<in> fst ` set services'"
        by (metis Project.select_convs(2) Project.surjective Project.update_convs(2)
            map_of_SomeD image_eqI fst_conv set_map)
      ultimately show ?thesis by (simp add: map_of_eq_None_iff)
    next
      case (Inr env)
      with m s True p' have got: "map_of (Services project') name = Some (s\<lparr>Environment := env\<rparr>)"
        by simp
      have sto: "\<exists>new. env = Some new \<and> new (ToUpper X (Name service) @ ''_'' @ key) = Some (Some val)"
        if "(key, val) \<in> set V" for key val
      proof (cases "Environment s")
        case None
        with Inr set_variables_nil_map [of ?pre V env] that show ?thesis by auto
      next
        case (Some old)
        with Inr set_variables_stores [of ?pre V old env] dV that show ?thesis by auto
      qed
      have frame: "new x = old x"
        if "Environment s = Some old" "env = Some new"
          "\<forall>key\<in>fst ` set V. x \<noteq> ToUpper X (Name service) @ ''_'' @ key" for old new x
        using Inr set_variables_stores [of ?pre V old env] that by auto
      from got sto frame True show ?thesis by simp
    qed
  qed
  from prov plug exec keys each show ?thesis by blast
qed

theorem variables_reach_dependents_witness:
  "distinct (map fst (Services shop)) \<and>
   (\<exists>project' tr.
      runPlugin (desktop chatty) shop db ''up'' = Some (None, project', tr) \<and>
      (\<exists>s' env. map_of (Services project') ''web'' = Some s' \<and> Environment s' = Some env \<and>
         env ''DB_TOKEN'' = Some (Some ''abc'') \<and> env ''PORT'' = Some (Some ''8080'')) \<and>
      map_of (Services project') ''cache'' = Some cache)"
proof -
  have d: "distinct (map fst (Services shop))" by (simp add: shop_def)
  have "\<exists>project' tr. runPlugin (desktop chatty) shop db ''up'' = Some (None, project', tr)"
    by (simp add: shop_defs chatty_run)
  then obtain project' tr
    where r: "runPlugin (desktop chatty) shop db ''up'' = Some (None, project', tr)" by blast
  from variables_reach_dependents [OF r d] obtain V
    where ex: "\<exists>provider plugin.
        Provider db = Some provider \<and>
        GetPlugin (desktop chatty) (Provider_Type provider) = Inr plugin \<and>
        executePlugin (run (desktop chatty) (Plugin_Path plugin) (plugin_args shop provider ''up''))
          ''up'' db = Some (Inr V, tr)"
      and each: "\<And>name s. map_of (Services shop) name = Some s \<Longrightarrow>
        \<exists>s'. map_of (Services project') name = Some s' \<and>
          (if DependsOn s (Name db) \<noteq> None then
             s' = s\<lparr>Environment := Environment s'\<rparr> \<and>
             (\<forall>key val. (key, val) \<in> set V \<longrightarrow>
                (\<exists>env. Environment s' = Some env \<and>
                   env (ToUpper (desktop chatty) (Name db) @ ''_'' @ key) = Some (Some val))) \<and>
             (\<forall>old new x.
                Environment s = Some old \<and> Environment s' = Some new \<and>
                (\<forall>key\<in>fst ` set V. x \<noteq> ToUpper (desktop chatty) (Name db) @ ''_'' @ key) \<longrightarrow>
                new x = old x)
           else s' = s)"
    by blast
  from ex have "executePlugin chatty ''up'' db = Some (Inr V, tr)"
    by (auto simp: desktop_def)
  with chatty_run have V: "V = [(''TOKEN'', ''abc'')]" by simp
  have up: "ToUpper (desktop chatty) ''db'' = ''DB''"
    by (simp add: desktop_def ascii_upper_def)
  have "map_of (Services shop) ''web'' = Some web" by (simp add: shop_def)
  from each [OF this] obtain s'
    where s': "map_of (Services project') ''web'' = Some s'"
      and sto: "\<forall>key val. (key, val) \<in> set V \<longrightarrow>
                (\<exists>env. Environment s' = Some env \<and> env (''DB'' @ ''_'' @ key) = Some (Some val))"
      and frame: "\<forall>old new x.
                Environment web = Some old \<and> Environment s' = Some new \<and>
                (\<forall>key\<in>fst ` set V. x \<noteq> ''DB'' @ ''_'' @ key) \<longrightarrow> new x = old x"
    by (auto simp: web_def Name_db up)
  from sto V obtain env where env: "Environment s' = Some env"
    "env ''DB_TOKEN'' = Some (Some ''abc'')" by auto
  from frame env(1) V have "env ''PORT'' = [''PORT'' \<mapsto> Some ''8080''] ''PORT''"
    by (simp add: web_def)
  then have port: "env ''PORT'' = Some (Some ''8080'')" by simp
  have "map_of (Services shop) ''cache'' = Some cache" by (simp add: shop_def)
  from each [OF this] have c: "map_of (Services project') ''cache'' = Some cache"
    by (simp add: cache_def)
  from d r s' env port c show ?thesis by blast
qed

text \<open>
  Claim C2. A message of kind \<open>setenv\<close> whose payload has an \<open>=\<close> is split at the
  first one: the payload is \<open>key = val\<close> with no \<open>=\<close> in the key. The \<open>switch\<close> stores
  \<open>val\<close> under \<open>key\<close> and emits nothing, so the variables then map \<open>key\<close> to \<open>val\<close>,
  and the loop goes on to the next read with these variables.
\<close>

theorem setenv_sets_variable:
  assumes "Type msg = SetEnvType" and "CHR ''='' \<in> set (Message msg)"
  shows "\<exists>key val.
           Message msg = key @ ''='' @ val \<and> CHR ''='' \<notin> set key \<and>
           dispatch name msg variables tr = Next (AList.update key val variables) tr \<and>
           map_of (AList.update key val variables) key = Some val \<and>
           (\<forall>rd i. rd i = Decoded msg \<longrightarrow>
              decode_loop rd name i variables tr =
              decode_loop rd name (Suc i) (AList.update key val variables) tr)"
proof -
  obtain key val f where c: "Cut (Message msg) ''='' = (key, val, f)"
    by (cases "Cut (Message msg) ''=''") auto
  with assms(2) Cut_char_found [of "Message msg" "CHR ''=''"] have f by simp
  with c have c': "Cut (Message msg) ''='' = (key, val, True)" by simp
  from Cut_char_split [OF c'] have m: "Message msg = key @ ''='' @ val" "CHR ''='' \<notin> set key"
    by simp_all
  have d: "dispatch name msg variables tr = Next (AList.update key val variables) tr"
    by (rule dispatch_setenv [OF assms(1) c'])
  have l: "map_of (AList.update key val variables) key = Some val"
    by (simp add: update_conv')
  have "decode_loop rd name i variables tr =
        decode_loop rd name (Suc i) (AList.update key val variables) tr"
    if "rd i = Decoded msg" for rd i
    using that d by (subst decode_loop.simps) (simp add: iteration_def)
  with m d l show ?thesis by blast
qed

theorem setenv_sets_variable_witness:
  "Type \<lparr>Type = ''setenv'', Message = ''URL=http://h/?a=b''\<rparr> = SetEnvType \<and>
   CHR ''='' \<in> set (Message \<lparr>Type = ''setenv'', Message = ''URL=http://h/?a=b''\<rparr>) \<and>
   (\<exists>key val.
      Message \<lparr>Type = ''setenv'', Message = ''URL=http://h/?a=b''\<rparr> = key @ ''='' @ val \<and>
      CHR ''='' \<notin> set key \<and>
      dispatch ''db'' \<lparr>Type = ''setenv'', Message = ''URL=http://h/?a=b''\<rparr> [(''URL'', ''old'')] [] =
        Next (AList.update key val [(''URL'', ''old'')]) [] \<and>
      map_of (AList.update key val [(''URL'', ''old'')]) key = Some val \<and>
      (\<forall>rd i. rd i = Decoded \<lparr>Type = ''setenv'', Message = ''URL=http://h/?a=b''\<rparr> \<longrightarrow>
         decode_loop rd ''db'' i [(''URL'', ''old'')] [] =
         decode_loop rd ''db'' (Suc i) (AList.update key val [(''URL'', ''old'')]) [])) \<and>
   dispatch ''db'' \<lparr>Type = ''setenv'', Message = ''URL=http://h/?a=b''\<rparr> [(''URL'', ''old'')] [] =
     Next [(''URL'', ''http://h/?a=b'')] []"
proof -
  let ?m = "\<lparr>Type = ''setenv'', Message = ''URL=http://h/?a=b''\<rparr>"
  have t: "Type ?m = SetEnvType" by (simp add: SetEnvType_def)
  have e: "CHR ''='' \<in> set (Message ?m)" by simp
  have d: "dispatch ''db'' ?m [(''URL'', ''old'')] [] = Next [(''URL'', ''http://h/?a=b'')] []"
    by (simp add: dispatch_def ErrorType_def InfoType_def SetEnvType_def)
  note inst = setenv_sets_variable [OF t e, of "''db''" "[(''URL'', ''old'')]" "[]"]
  from t e inst d show ?thesis by (iprover intro: conjI)
qed

text \<open>
  Claim C3. First, \<open>executePlugin\<close> returns variables only when the child was started,
  every read up to an end of stream continued the loop and \<open>eg.Wait()\<close> returned nil,
  and then its last effects are the join, the completion event and the close. Second,
  when \<open>executePlugin\<close> returns an error, \<open>runPlugin\<close> returns that error and the
  project as it was. Third, whenever \<open>runPlugin\<close> returns a project other than the
  one it was given, \<open>executePlugin\<close> had returned variables.
\<close>

theorem no_partial_variables:
  "(\<forall>V tr. executePlugin ch command service = Some (Inr V, tr) \<longrightarrow>
      pipe_err ch = None \<and> start_err ch = None \<and>
      (\<exists>n. list_all continues (reads (stdout ch) 0 n) \<and> stdout ch n = EOF) \<and>
      wait ch = Some None \<and>
      (\<exists>t. tr = t @ [EgWait, PwEvent (done_event command (Name service)), StdoutClose])) \<and>
   (\<forall>provider plugin e tr.
      Provider service = Some provider \<and> GetPlugin X (Provider_Type provider) = Inr plugin \<and>
      checkPluginEnabledInDD X plugin = None \<and>
      executePlugin (run X (Plugin_Path plugin) (plugin_args project provider command))
        command service = Some (Inl e, tr) \<longrightarrow>
      runPlugin X project service command = Some (Some e, project, tr)) \<and>
   (\<forall>res project' tr.
      runPlugin X project service command = Some (res, project', tr) \<and> project' \<noteq> project \<longrightarrow>
      (\<exists>provider plugin V.
         Provider service = Some provider \<and> GetPlugin X (Provider_Type provider) = Inr plugin \<and>
         executePlugin (run X (Plugin_Path plugin) (plugin_args project provider command))
           command service = Some (Inr V, tr)))"
proof -
  have a: "\<forall>V tr. executePlugin ch command service = Some (Inr V, tr) \<longrightarrow>
      pipe_err ch = None \<and> start_err ch = None \<and>
      (\<exists>n. list_all continues (reads (stdout ch) 0 n) \<and> stdout ch n = EOF) \<and>
      wait ch = Some None \<and>
      (\<exists>t. tr = t @ [EgWait, PwEvent (done_event command (Name service)), StdoutClose])"
    using executePlugin_Inr by blast
  have b: "\<forall>provider plugin e tr.
      Provider service = Some provider \<and> GetPlugin X (Provider_Type provider) = Inr plugin \<and>
      checkPluginEnabledInDD X plugin = None \<and>
      executePlugin (run X (Plugin_Path plugin) (plugin_args project provider command))
        command service = Some (Inl e, tr) \<longrightarrow>
      runPlugin X project service command = Some (Some e, project, tr)"
    by (simp add: runPlugin_hands_on_error)
  have c: "\<forall>res project' tr.
      runPlugin X project service command = Some (res, project', tr) \<and> project' \<noteq> project \<longrightarrow>
      (\<exists>provider plugin V.
         Provider service = Some provider \<and> GetPlugin X (Provider_Type provider) = Inr plugin \<and>
         executePlugin (run X (Plugin_Path plugin) (plugin_args project provider command))
           command service = Some (Inr V, tr))"
    using runPlugin_changed by blast
  from a b c show ?thesis by (intro conjI)
qed

theorem no_partial_variables_witness:
  "executePlugin chatty ''up'' db =
     Some (Inr [(''TOKEN'', ''abc'')],
           [CmdStart, GoWait, PwEvent (CreatingEvent ''db''),
            PwEvent (ErrorMessageEvent ''db'' ''pulling image'')]
           @ [EgWait, PwEvent (done_event ''up'' (Name db)), StdoutClose]) \<and>
   (\<exists>n. list_all continues (reads (stdout chatty) 0 n) \<and> stdout chatty n = EOF) \<and>
   wait chatty = Some None \<and>
   executePlugin failing ''up'' db =
     Some (Inl (Errorf ''boom''),
           [CmdStart, GoWait, PwEvent (CreatingEvent ''db''),
            PwEvent (ErrorMessageEvent ''db'' ''pulling image''),
            PwEvent (ErrorMessageEvent ''db'' ''error''), StdoutClose]) \<and>
   runPlugin (desktop failing) shop db ''up'' =
     Some (Some (Errorf ''boom''), shop,
           [CmdStart, GoWait, PwEvent (CreatingEvent ''db''),
            PwEvent (ErrorMessageEvent ''db'' ''pulling image''),
            PwEvent (ErrorMessageEvent ''db'' ''error''), StdoutClose]) \<and>
   (\<exists>res project' tr.
      runPlugin (desktop chatty) shop db ''up'' = Some (res, project', tr) \<and> project' \<noteq> shop \<and>
      (\<exists>V. executePlugin chatty ''up'' db = Some (Inr V, tr)))"
proof -
  note inst = no_partial_variables [of chatty "''up''" db "desktop failing" shop]
  note inst' = no_partial_variables [of chatty "''up''" db "desktop chatty" shop]
  have ok: "executePlugin chatty ''up'' db =
     Some (Inr [(''TOKEN'', ''abc'')],
           [CmdStart, GoWait, PwEvent (CreatingEvent ''db''),
            PwEvent (ErrorMessageEvent ''db'' ''pulling image'')]
           @ [EgWait, PwEvent (done_event ''up'' (Name db)), StdoutClose])"
    using chatty_run by (simp add: done_event_def Name_db)
  from inst ok
  have 1: "(\<exists>n. list_all continues (reads (stdout chatty) 0 n) \<and> stdout chatty n = EOF) \<and>
      wait chatty = Some None"
    by blast
  have gate: "Provider db = Some \<lparr>Provider_Type = ''model'', Options = [(''size'', ''small'')]\<rparr>"
    "GetPlugin (desktop failing) ''model'' =
       Inr \<lparr>Plugin_Name = ''model'', Plugin_Path = ''docker-model''\<rparr>"
    "checkPluginEnabledInDD (desktop failing)
       \<lparr>Plugin_Name = ''model'', Plugin_Path = ''docker-model''\<rparr> = None"
    "run (desktop failing) ''docker-model''
       (plugin_args shop \<lparr>Provider_Type = ''model'', Options = [(''size'', ''small'')]\<rparr> ''up'') = failing"
    by (simp_all add: db_def desktop_def checkPluginEnabledInDD_def)
  from inst gate failing_run
  have 2: "runPlugin (desktop failing) shop db ''up'' =
     Some (Some (Errorf ''boom''), shop,
           [CmdStart, GoWait, PwEvent (CreatingEvent ''db''),
            PwEvent (ErrorMessageEvent ''db'' ''pulling image''),
            PwEvent (ErrorMessageEvent ''db'' ''error''), StdoutClose])"
    by simp
  have "\<exists>res project' tr.
      runPlugin (desktop chatty) shop db ''up'' = Some (res, project', tr) \<and> project' \<noteq> shop"
    by (simp add: shop_defs chatty_run web_gains)
  then obtain res project' tr
    where run: "runPlugin (desktop chatty) shop db ''up'' = Some (res, project', tr)"
      and changed: "project' \<noteq> shop" by blast
  with inst' have "\<exists>provider plugin V.
         Provider db = Some provider \<and> GetPlugin (desktop chatty) (Provider_Type provider) = Inr plugin \<and>
         executePlugin (run (desktop chatty) (Plugin_Path plugin) (plugin_args shop provider ''up''))
           ''up'' db = Some (Inr V, tr)"
    by blast
  then have "\<exists>V. executePlugin chatty ''up'' db = Some (Inr V, tr)"
    by (auto simp: desktop_def)
  with run changed ok 1 2 failing_run show ?thesis by blast
qed

text \<open>
  Claim C4, as stated, fails: the child writes an \<open>info\<close> message and then an \<open>error\<close>
  message; \<open>executePlugin\<close> returns the error and \<open>eg.Wait()\<close> is not among its
  effects.
\<close>

theorem join_on_every_path_counterexample:
  "executePlugin failing ''up'' db =
     Some (Inl (Errorf ''boom''),
           [CmdStart, GoWait, PwEvent (CreatingEvent ''db''),
            PwEvent (ErrorMessageEvent ''db'' ''pulling image''),
            PwEvent (ErrorMessageEvent ''db'' ''error''), StdoutClose]) \<and>
   joined [CmdStart, GoWait, PwEvent (CreatingEvent ''db''),
           PwEvent (ErrorMessageEvent ''db'' ''pulling image''),
           PwEvent (ErrorMessageEvent ''db'' ''error''), StdoutClose] = 0"
  by (simp add: failing_def run_defs joined_def)

text \<open>
  Claim C4, amended. When the loop ends at end of stream, that is when every read before
  it continued the loop, and the process exits, \<open>executePlugin\<close> returns after exactly
  one \<open>eg.Wait()\<close>, and it returns variables exactly when the process-wait reported no
  error.
\<close>

theorem join_at_end_of_stream:
  assumes "pipe_err ch = None" and "start_err ch = None"
    and "command = ''up'' \<or> command = ''down''"
    and "list_all continues (reads (stdout ch) 0 n)"
    and "stdout ch n = EOF" and "wait ch = Some w"
  shows "\<exists>res tr. executePlugin ch command service = Some (res, tr) \<and> joined tr = 1 \<and>
           ((\<exists>V. res = Inr V) \<longleftrightarrow> w = None)"
proof -
  let ?name = "Name service"
  from consume_continues [OF assms(4)] obtain v t
    where c: "consume ?name (reads (stdout ch) 0 n) [] (start_trace command ?name) = Next v t"
    by blast
  from consume_trace [OF c] obtain evs where "t = start_trace command ?name @ map PwEvent evs" ..
  then have j: "joined t = 0" by (simp add: joined_start_trace)
  then have j1: "joined (t @ [EgWait, PwEvent e, StdoutClose]) = 1" for e
    by (simp add: joined_def)
  note run = after_start_eof [OF c assms(5)] executePlugin_started [OF assms(1-3), of service]
  show ?thesis
  proof (cases w)
    case None
    with run assms(6) j1 show ?thesis by simp
  next
    case (Some d)
    with run assms(6) j1 show ?thesis by simp
  qed
qed

theorem join_at_end_of_stream_witness:
  "list_all continues (reads (stdout chatty) 0 (Suc (Suc 0))) \<and>
   stdout chatty (Suc (Suc 0)) = EOF \<and> wait chatty = Some None \<and>
   list_all continues (reads (stdout crashed) 0 (Suc 0)) \<and>
   stdout crashed (Suc 0) = EOF \<and> wait crashed = Some (Some ''exit status 1'') \<and>
   (\<exists>V tr. executePlugin chatty ''up'' db = Some (Inr V, tr) \<and> joined tr = 1) \<and>
   (\<exists>e tr. executePlugin crashed ''down'' db = Some (Inl e, tr) \<and> joined tr = 1)"
proof -
  have a: "pipe_err chatty = None" "start_err chatty = None"
    "stdout chatty (Suc (Suc 0)) = EOF" "wait chatty = Some None"
    by (simp_all add: chatty_def process_def outputs_def)
  have ac: "list_all continues (reads (stdout chatty) 0 (Suc (Suc 0)))"
    by (simp add: chatty_def process_def outputs_def message_def continues_def
        InfoType_def SetEnvType_def)
  have b: "pipe_err crashed = None" "start_err crashed = None"
    "stdout crashed (Suc 0) = EOF" "wait crashed = Some (Some ''exit status 1'')"
    by (simp_all add: crashed_def process_def outputs_def)
  have bc: "list_all continues (reads (stdout crashed) 0 (Suc 0))"
    by (simp add: crashed_def process_def outputs_def message_def continues_def
        InfoType_def SetEnvType_def)
  from join_at_end_of_stream [OF a(1,2) _ ac a(3,4), of "''up''" db]
  have 1: "\<exists>V tr. executePlugin chatty ''up'' db = Some (Inr V, tr) \<and> joined tr = 1"
    by auto
  from join_at_end_of_stream [OF b(1,2) _ bc b(3,4), of "''down''" db]
  obtain res tr where r: "executePlugin crashed ''down'' db = Some (res, tr)" "joined tr = 1"
    and "\<not> (\<exists>V. res = Inr V)" by auto
  then have "\<exists>e. res = Inl e" by (cases res) auto
  with r have 2: "\<exists>e tr. executePlugin crashed ''down'' db = Some (Inl e, tr) \<and> joined tr = 1"
    by blast
  from a b ac bc 1 2 show ?thesis by simp
qed

text \<open>
  Claim C5. Let the child be started for \<open>up\<close> or \<open>down\<close> and let read \<open>n\<close> be the
  first that does not continue the loop, a message of kind \<open>error\<close>. Then \<open>executePlugin\<close>
  returns the error \<open>errors.New(msg.Message)\<close>, whose text is exactly the payload, and
  no variables. Nothing after read \<open>n\<close> matters: a child that agrees with this one up
  to read \<open>n\<close>, whatever it writes later and however it exits, gives the same result
  and the same effects.
\<close>

theorem error_message_fails:
  assumes "pipe_err ch = None" and "start_err ch = None"
    and "command = ''up'' \<or> command = ''down''"
    and "list_all continues (reads (stdout ch) 0 n)"
    and "stdout ch n = Decoded msg" and "Type msg = ErrorType"
  shows "(\<exists>tr. executePlugin ch command service = Some (Inl (Errorf (Message msg)), tr)) \<and>
         (\<forall>ch'. pipe_err ch' = None \<and> start_err ch' = None \<and> (\<forall>i\<le>n. stdout ch' i = stdout ch i)
            \<longrightarrow> executePlugin ch' command service = executePlugin ch command service)"
proof -
  have it: "\<And>v t. iteration (Name service) (stdout ch n) v t =
      Done (Inl (Errorf (Message msg))) (t @ [PwEvent (ErrorMessageEvent (Name service) ''error'')])"
    using assms(5,6) by (simp add: iteration_def dispatch_error)
  from fails_at [OF assms(1-4) it] show ?thesis by blast
qed

theorem error_message_fails_witness:
  "list_all continues (reads (stdout failing) 0 (Suc 0)) \<and>
   stdout failing (Suc 0) = message ErrorType ''boom'' \<and>
   stdout failing' 0 = stdout failing 0 \<and>
   stdout failing' (Suc 0) = stdout failing (Suc 0) \<and>
   (\<exists>tr. executePlugin failing ''up'' db = Some (Inl (Errorf ''boom''), tr)) \<and>
   executePlugin failing' ''up'' db = executePlugin failing ''up'' db"
proof -
  have st: "pipe_err failing = None" "start_err failing = None"
    and st': "pipe_err failing' = None" "start_err failing' = None"
    by (simp_all add: failing_def failing'_def process_def)
  have cont: "list_all continues (reads (stdout failing) 0 (Suc 0))"
    by (simp add: failing_def process_def outputs_def message_def continues_def InfoType_def)
  have at: "stdout failing (Suc 0) = Decoded \<lparr>Type = ErrorType, Message = ''boom''\<rparr>"
    by (simp add: failing_def process_def outputs_def message_def ErrorType_def)
  have same: "\<forall>i\<le>Suc 0. stdout failing' i = stdout failing i"
    by (simp add: failing_def failing'_def process_def outputs_def le_Suc_eq)
  from error_message_fails [OF st _ cont at, of "''up''" db] st' same cont at
  show ?thesis by (simp add: message_def le_Suc_eq)
qed

text \<open>
  Claim C6. Let the child be started for \<open>up\<close> or \<open>down\<close> and let read \<open>n\<close> be the
  first that does not continue the loop. If it is a decoding failure, \<open>executePlugin\<close>
  returns the decoder's error; if it is a message of a kind other than \<open>error\<close>,
  \<open>info\<close> and \<open>setenv\<close>, or a \<open>setenv\<close> message without \<open>=\<close>, it returns
  \<open>invalid response from plugin:\<close> followed by the kind, respectively the payload.
  In each case no variables are returned and nothing after read \<open>n\<close> is looked at.
\<close>

theorem protocol_violation_fails:
  assumes "pipe_err ch = None" and "start_err ch = None"
    and "command = ''up'' \<or> command = ''down''"
    and "list_all continues (reads (stdout ch) 0 n)"
    and "(\<exists>d. stdout ch n = Failed d \<and> e = DecodeErr d) \<or>
         (\<exists>msg. stdout ch n = Decoded msg \<and>
                Type msg \<noteq> ErrorType \<and> Type msg \<noteq> InfoType \<and> Type msg \<noteq> SetEnvType \<and>
                e = Errorf (''invalid response from plugin: '' @ Type msg)) \<or>
         (\<exists>msg. stdout ch n = Decoded msg \<and>
                Type msg = SetEnvType \<and> CHR ''='' \<notin> set (Message msg) \<and>
                e = Errorf (''invalid response from plugin: '' @ Message msg))"
  shows "(\<exists>tr. executePlugin ch command service = Some (Inl e, tr)) \<and>
         (\<forall>ch'. pipe_err ch' = None \<and> start_err ch' = None \<and> (\<forall>i\<le>n. stdout ch' i = stdout ch i)
            \<longrightarrow> executePlugin ch' command service = executePlugin ch command service)"
proof -
  have it: "\<And>v t. iteration (Name service) (stdout ch n) v t = Done (Inl e) (t @ [])"
    using assms(5)
    by (auto simp: iteration_def dispatch_setenv_invalid dispatch_unknown)
  from fails_at [OF assms(1-4) it] show ?thesis by blast
qed

theorem protocol_violation_fails_witness:
  "(\<exists>tr. executePlugin garbled ''up'' db =
           Some (Inl (DecodeErr ''unexpected end of JSON input''), tr)) \<and>
   (\<exists>tr. executePlugin unknown_kind ''down'' db =
           Some (Inl (Errorf ''invalid response from plugin: debug''), tr)) \<and>
   (\<exists>tr. executePlugin malformed ''up'' db =
           Some (Inl (Errorf ''invalid response from plugin: HOST''), tr)) \<and>
   stdout malformed' 0 = stdout malformed 0 \<and>
   executePlugin malformed' ''up'' db = executePlugin malformed ''up'' db"
proof -
  let ?viol = "\<lambda>(ch :: child) n e.
         (\<exists>d. stdout ch n = Failed d \<and> e = DecodeErr d) \<or>
         (\<exists>msg. stdout ch n = Decoded msg \<and>
                Type msg \<noteq> ErrorType \<and> Type msg \<noteq> InfoType \<and> Type msg \<noteq> SetEnvType \<and>
                e = Errorf (''invalid response from plugin: '' @ Type msg)) \<or>
         (\<exists>msg. stdout ch n = Decoded msg \<and>
                Type msg = SetEnvType \<and> CHR ''='' \<notin> set (Message msg) \<and>
                e = Errorf (''invalid response from plugin: '' @ Message msg))"
  have st: "pipe_err garbled = None" "start_err garbled = None"
    "pipe_err unknown_kind = None" "start_err unknown_kind = None"
    "pipe_err malformed = None" "start_err malformed = None"
    "pipe_err malformed' = None" "start_err malformed' = None"
    by (simp_all add: garbled_def unknown_kind_def malformed_def malformed'_def process_def)
  have g: "list_all continues (reads (stdout garbled) 0 (Suc 0))"
    by (simp add: garbled_def process_def outputs_def message_def continues_def InfoType_def)
  have "stdout garbled (Suc 0) = Failed ''unexpected end of JSON input''"
    by (simp add: garbled_def process_def outputs_def)
  then have gv: "?viol garbled (Suc 0) (DecodeErr ''unexpected end of JSON input'')"
    by simp
  have u: "list_all continues (reads (stdout unknown_kind) 0 0)" by simp
  have "stdout unknown_kind 0 = Decoded \<lparr>Type = ''debug'', Message = ''verbose''\<rparr>"
    by (simp add: unknown_kind_def process_def outputs_def message_def)
  then have uv: "?viol unknown_kind 0 (Errorf ''invalid response from plugin: debug'')"
    by (simp add: ErrorType_def InfoType_def SetEnvType_def)
  have m: "list_all continues (reads (stdout malformed) 0 0)" by simp
  have "stdout malformed 0 = Decoded \<lparr>Type = ''setenv'', Message = ''HOST''\<rparr>"
    by (simp add: malformed_def process_def outputs_def message_def)
  then have mv: "?viol malformed 0 (Errorf ''invalid response from plugin: HOST'')"
    by (simp add: ErrorType_def InfoType_def SetEnvType_def)
  have same: "stdout malformed' 0 = stdout malformed 0"
    by (simp add: malformed_def malformed'_def process_def outputs_def)
  note 1 = protocol_violation_fails [OF st(1,2) _ g gv, of "''up''" db]
  note 2 = protocol_violation_fails [OF st(3,4) _ u uv, of "''down''" db]
  note 3 = protocol_violation_fails [OF st(5,6) _ m mv, of "''up''" db]
  have "executePlugin malformed' ''up'' db = executePlugin malformed ''up'' db"
    using 3 st(7,8) same by simp
  with 1 2 3 same show ?thesis by simp
qed

text \<open>
  Claim C7. When every read before end of stream continued the loop and \<open>eg.Wait()\<close>
  returns an error with text \<open>d\<close>, \<open>executePlugin\<close> returns the error
  \<open>failed to create external service: d\<close> for \<open>up\<close> and
  \<open>failed to remove external service: d\<close> for \<open>down\<close>, and its last event is the
  error message event of the service with text \<open>d\<close>.
\<close>

theorem exit_failure_fails:
  assumes "pipe_err ch = None" and "start_err ch = None"
    and "command = ''up'' \<or> command = ''down''"
    and "list_all continues (reads (stdout ch) 0 n)"
    and "stdout ch n = EOF"
    and "wait ch = Some (Some d)"
  shows "\<exists>tr. executePlugin ch command service =
           Some (Inl (Errorf (''failed to '' @ (if command = ''up'' then ''create'' else ''remove'')
                              @ '' external service: '' @ d)),
                 tr @ [EgWait, PwEvent (ErrorMessageEvent (Name service) d), StdoutClose])"
proof -
  from consume_continues [OF assms(4)] obtain v t
    where c: "consume (Name service) (reads (stdout ch) 0 n) [] (start_trace command (Name service)) = Next v t"
    by blast
  from after_start_eof [OF c assms(5)] assms(6) executePlugin_started [OF assms(1-3), of service]
  show ?thesis by (simp add: action_of_def)
qed

theorem exit_failure_fails_witness:
  "list_all continues (reads (stdout crashed) 0 (Suc 0)) \<and>
   stdout crashed (Suc 0) = EOF \<and> wait crashed = Some (Some ''exit status 1'') \<and>
   (\<exists>tr. executePlugin crashed ''up'' db =
      Some (Inl (Errorf ''failed to create external service: exit status 1''),
            tr @ [EgWait, PwEvent (ErrorMessageEvent ''db'' ''exit status 1''), StdoutClose])) \<and>
   (\<exists>tr. executePlugin crashed ''down'' db =
      Some (Inl (Errorf ''failed to remove external service: exit status 1''),
            tr @ [EgWait, PwEvent (ErrorMessageEvent ''db'' ''exit status 1''), StdoutClose]))"
proof -
  have st: "pipe_err crashed = None" "start_err crashed = None"
    and w: "wait crashed = Some (Some ''exit status 1'')"
    and eof: "stdout crashed (Suc 0) = EOF"
    by (simp_all add: crashed_def process_def outputs_def)
  have cont: "list_all continues (reads (stdout crashed) 0 (Suc 0))"
    by (simp add: crashed_def process_def outputs_def message_def continues_def
        InfoType_def SetEnvType_def)
  from exit_failure_fails [OF st _ cont eof w, of "''up''" db]
    exit_failure_fails [OF st _ cont eof w, of "''down''" db] cont eof w
  show ?thesis by (simp add: db_def)
qed

text \<open>
  Claim C8, as stated, fails: the child writes a \<open>setenv\<close> message without \<open>=\<close>;
  \<open>runPlugin\<close> returns the error, and the only event emitted is the one that
  announces the creation.
\<close>

theorem error_event_on_every_failure_counterexample:
  "runPlugin (desktop malformed) shop db ''up'' =
     Some (Some (Errorf ''invalid response from plugin: HOST''), shop,
           [CmdStart, GoWait, PwEvent (CreatingEvent ''db''), StdoutClose]) \<and>
   filter is_error_event [CmdStart, GoWait, PwEvent (CreatingEvent ''db''), StdoutClose] = []"
  by (simp add: shop_defs malformed_run)

text \<open>
  Claim C8, amended. Let \<open>runPlugin\<close> get as far as \<open>executePlugin\<close>, with the child
  started for \<open>up\<close> or \<open>down\<close>, and let read \<open>n\<close> be the first that does not continue
  the loop. If it is a message of kind \<open>error\<close>, or if it is the end of the stream and
  the process-wait fails, then \<open>runPlugin\<close> returns an error, leaves the project as it
  was, and the last event emitted is an error message event of the service: with the
  text \<open>error\<close> in the first case, with the text of the wait's error in the second.
\<close>

theorem error_event_on_reported_and_exit_failure:
  assumes "Provider service = Some provider"
    and "GetPlugin X (Provider_Type provider) = Inr plugin"
    and "checkPluginEnabledInDD X plugin = None"
    and "ch = run X (Plugin_Path plugin) (plugin_args project provider command)"
    and "pipe_err ch = None" and "start_err ch = None"
    and "command = ''up'' \<or> command = ''down''"
    and "list_all continues (reads (stdout ch) 0 n)"
    and "(\<exists>msg. stdout ch n = Decoded msg \<and> Type msg = ErrorType \<and> text = ''error'') \<or>
         (stdout ch n = EOF \<and> wait ch = Some (Some text))"
  shows "\<exists>e tr. runPlugin X project service command =
           Some (Some e, project,
                 tr @ [PwEvent (ErrorMessageEvent (Name service) text), StdoutClose])"
proof -
  let ?name = "Name service"
  from consume_continues [OF assms(8)] obtain v t
    where c: "consume ?name (reads (stdout ch) 0 n) [] (start_trace command ?name) = Next v t"
    by blast
  note started = executePlugin_started [OF assms(5-7), of service]
  from assms(9)
  have "\<exists>e tr. executePlugin ch command service =
      Some (Inl e, tr @ [PwEvent (ErrorMessageEvent ?name text), StdoutClose])"
  proof
    assume "\<exists>msg. stdout ch n = Decoded msg \<and> Type msg = ErrorType \<and> text = ''error''"
    then obtain msg where m: "stdout ch n = Decoded msg" "Type msg = ErrorType" "text = ''error''"
      by blast
    then have "iteration ?name (stdout ch n) v t =
        Done (Inl (Errorf (Message msg))) (t @ [PwEvent (ErrorMessageEvent ?name text)])"
      by (simp add: iteration_def dispatch_error)
    from after_start_error [OF c this] started show ?thesis by simp
  next
    assume "stdout ch n = EOF \<and> wait ch = Some (Some text)"
    with after_start_eof [OF c, of "action_of command" "done_event command ?name"] started
    have "executePlugin ch command service =
        Some (Inl (Errorf (''failed to '' @ action_of command @ '' external service: '' @ text)),
              (t @ [EgWait]) @ [PwEvent (ErrorMessageEvent ?name text), StdoutClose])"
      by simp
    then show ?thesis by blast
  qed
  then obtain e tr where "executePlugin ch command service =
      Some (Inl e, tr @ [PwEvent (ErrorMessageEvent ?name text), StdoutClose])" by blast
  with assms(1-4) show ?thesis by (simp add: runPlugin_def)
qed

theorem error_event_on_reported_and_exit_failure_witness:
  "list_all continues (reads (stdout failing) 0 (Suc 0)) \<and>
   stdout failing (Suc 0) = message ErrorType ''boom'' \<and>
   list_all continues (reads (stdout crashed) 0 (Suc 0)) \<and>
   stdout crashed (Suc 0) = EOF \<and> wait crashed = Some (Some ''exit status 1'') \<and>
   (\<exists>e tr. runPlugin (desktop failing) shop db ''up'' =
      Some (Some e, shop, tr @ [PwEvent (ErrorMessageEvent ''db'' ''error''), StdoutClose])) \<and>
   (\<exists>e tr. runPlugin (desktop crashed) shop db ''down'' =
      Some (Some e, shop, tr @ [PwEvent (ErrorMessageEvent ''db'' ''exit status 1''), StdoutClose]))"
proof -
  let ?plugin = "\<lparr>Plugin_Name = ''model'', Plugin_Path = ''docker-model''\<rparr>"
  have gate: "GetPlugin (desktop ch) (Provider_Type \<lparr>Provider_Type = ''model'', Options = [(''size'', ''small'')]\<rparr>) = Inr ?plugin"
    "checkPluginEnabledInDD (desktop ch) ?plugin = None"
    "ch = run (desktop ch) (Plugin_Path ?plugin) args" for ch args
    by (simp_all add: desktop_def checkPluginEnabledInDD_def)
  have a: "pipe_err failing = None" "start_err failing = None"
    by (simp_all add: failing_def process_def)
  have ac: "list_all continues (reads (stdout failing) 0 (Suc 0))"
    by (simp add: failing_def process_def outputs_def message_def continues_def InfoType_def)
  have ae: "stdout failing (Suc 0) = Decoded \<lparr>Type = ErrorType, Message = ''boom''\<rparr>"
    by (simp add: failing_def process_def outputs_def message_def ErrorType_def)
  then have av: "(\<exists>msg. stdout failing (Suc 0) = Decoded msg \<and> Type msg = ErrorType \<and> ''error'' = ''error'') \<or>
         (stdout failing (Suc 0) = EOF \<and> wait failing = Some (Some ''error''))"
    by simp
  have b: "pipe_err crashed = None" "start_err crashed = None"
    "stdout crashed (Suc 0) = EOF" "wait crashed = Some (Some ''exit status 1'')"
    by (simp_all add: crashed_def process_def outputs_def)
  have bc: "list_all continues (reads (stdout crashed) 0 (Suc 0))"
    by (simp add: crashed_def process_def outputs_def message_def continues_def
        InfoType_def SetEnvType_def)
  from b have bv: "(\<exists>msg. stdout crashed (Suc 0) = Decoded msg \<and> Type msg = ErrorType \<and>
           ''exit status 1'' = ''error'') \<or>
         (stdout crashed (Suc 0) = EOF \<and> wait crashed = Some (Some ''exit status 1''))"
    by simp
  note 1 = error_event_on_reported_and_exit_failure
    [OF Provider_db gate(1,2,3) a _ ac av, of "''up''" shop, unfolded Name_db]
  note 2 = error_event_on_reported_and_exit_failure
    [OF Provider_db gate(1,2,3) b(1,2) _ bc bv, of "''down''" shop, unfolded Name_db]
  from 1 2 ac ae b bc show ?thesis by (simp add: message_def)
qed

text \<open>
  Claim C9 does not hold of the code. The child writes the \<open>info\<close> message
  \<open>pulling image\<close> and the \<open>setenv\<close> message \<open>TOKEN=abc\<close> and exits with status zero.
  The run succeeds with the one variable, so the \<open>info\<close> message changed neither the
  outcome nor the variables; but the event emitted for it is the one
  \<open>progress.ErrorMessageEvent\<close> builds, the same constructor the \<open>error\<close> case and the
  exit failure use.
\<close>

theorem info_message_emits_error_event:
  "executePlugin chatty ''up'' db =
     Some (Inr [(''TOKEN'', ''abc'')],
           [CmdStart, GoWait, PwEvent (CreatingEvent ''db''),
            PwEvent (ErrorMessageEvent ''db'' ''pulling image''),
            EgWait, PwEvent (CreatedEvent ''db''), StdoutClose])"
  by (simp add: chatty_def run_defs)

text \<open>
  Claim C10. Let the child be started for \<open>up\<close> or \<open>down\<close>, let every read before end
  of stream continue the loop and let the process exit with status zero. If two
  \<open>setenv\<close> messages carry the same key, the second with value \<open>v2\<close>, and no later
  \<open>setenv\<close> message has that key, then \<open>executePlugin\<close> succeeds and the variables it
  returns map the key to \<open>v2\<close>.
\<close>

theorem duplicate_setenv_last_wins:
  assumes "pipe_err ch = None" and "start_err ch = None"
    and "command = ''up'' \<or> command = ''down''"
    and "list_all continues (reads (stdout ch) 0 n)"
    and "stdout ch n = EOF" and "wait ch = Some None"
    and "i < j" and "j < n" and "CHR ''='' \<notin> set key"
    and "stdout ch i = Decoded \<lparr>Type = SetEnvType, Message = key @ ''='' @ v1\<rparr>"
    and "stdout ch j = Decoded \<lparr>Type = SetEnvType, Message = key @ ''='' @ v2\<rparr>"
    and "\<forall>l. j < l \<and> l < n \<longrightarrow> \<not> sets_key key (stdout ch l)"
  shows "\<exists>V tr. executePlugin ch command service = Some (Inr V, tr) \<and> map_of V key = Some v2"
proof -
  let ?name = "Name service"
  let ?rd = "stdout ch"
  let ?tr = "start_trace command ?name"
  from consume_continues [OF assms(4)] obtain V t
    where c: "consume ?name (reads ?rd 0 n) [] ?tr = Next V t" by blast
  from after_start_eof [OF c assms(5)] assms(6) executePlugin_started [OF assms(1-3), of service]
  have res: "executePlugin ch command service =
      Some (Inr V, t @ [EgWait, PwEvent (done_event command ?name), StdoutClose])"
    by simp
  from c reads_split [OF assms(8), of ?rd]
  have "consume ?name (reads ?rd 0 j @ ?rd j # reads ?rd (Suc j) (n - Suc j)) [] ?tr = Next V t"
    by simp
  then obtain va ta vb tb
    where a: "consume ?name (reads ?rd 0 j) [] ?tr = Next va ta"
      and b: "iteration ?name (?rd j) va ta = Next vb tb"
      and r: "consume ?name (reads ?rd (Suc j) (n - Suc j)) vb tb = Next V t"
    by (auto simp: consume_append split: flow.splits)
  have "Cut (key @ ''='' @ v2) ''='' = (key, v2, True)"
    using Cut_char_first [OF assms(9), of v2] by simp
  with b assms(11) have "vb = AList.update key v2 va"
    by (simp add: iteration_def dispatch_setenv)
  then have vb: "map_of vb key = Some v2" by (simp add: update_conv')
  have "\<forall>r\<in>set (reads ?rd (Suc j) (n - Suc j)). \<not> sets_key key r"
    using assms(8,12) by (auto simp: reads_set)
  from consume_keeps_key [OF r this] vb have "map_of V key = Some v2" by simp
  with res show ?thesis by blast
qed

theorem duplicate_setenv_last_wins_witness:
  "list_all continues (reads (stdout repeated) 0 (Suc (Suc (Suc (Suc 0))))) \<and>
   stdout repeated (Suc (Suc (Suc (Suc 0)))) = EOF \<and>
   stdout repeated 0 = message SetEnvType (''HOST'' @ ''='' @ ''first'') \<and>
   stdout repeated (Suc (Suc 0)) = message SetEnvType (''HOST'' @ ''='' @ ''second'') \<and>
   \<not> sets_key ''HOST'' (stdout repeated (Suc (Suc (Suc 0)))) \<and>
   (\<exists>V tr. executePlugin repeated ''up'' db = Some (Inr V, tr) \<and> map_of V ''HOST'' = Some ''second'')"
proof -
  let ?n = "Suc (Suc (Suc (Suc 0)))"
  have st: "pipe_err repeated = None" "start_err repeated = None"
    and w: "wait repeated = Some None" and eof: "stdout repeated ?n = EOF"
    by (simp_all add: repeated_def process_def outputs_def)
  have cont: "list_all continues (reads (stdout repeated) 0 ?n)"
    by (simp add: repeated_def process_def outputs_def message_def continues_def
        InfoType_def SetEnvType_def)
  have first: "stdout repeated 0 = Decoded \<lparr>Type = SetEnvType, Message = ''HOST'' @ ''='' @ ''first''\<rparr>"
    and second: "stdout repeated (Suc (Suc 0)) =
        Decoded \<lparr>Type = SetEnvType, Message = ''HOST'' @ ''='' @ ''second''\<rparr>"
    by (simp_all add: repeated_def process_def outputs_def message_def SetEnvType_def)
  have third: "\<not> sets_key ''HOST'' (stdout repeated (Suc (Suc (Suc 0))))"
    by (simp add: repeated_def process_def outputs_def message_def sets_key_def)
  have later: "\<forall>l. Suc (Suc 0) < l \<and> l < ?n \<longrightarrow> \<not> sets_key ''HOST'' (stdout repeated l)"
  proof (intro allI impI)
    fix l assume "Suc (Suc 0) < l \<and> l < ?n"
    then have "l = Suc (Suc (Suc 0))" by arith
    with third show "\<not> sets_key ''HOST'' (stdout repeated l)" by simp
  qed
  have ij: "0 < Suc (Suc 0)" "Suc (Suc 0) < ?n" and k: "CHR ''='' \<notin> set ''HOST''" by simp_all
  from duplicate_setenv_last_wins [OF st _ cont eof w ij k first second later, of "''up''" db]
    cont eof first second third
  show ?thesis by (simp add: message_def)
qed

end
